theory Spec2Isabelle
  imports Complex_Main "HOL-Library.Sublist"
begin

section \<open>Strings\<close>

text \<open>
  A Python \<open>str\<close> is modelled as a \<open>string\<close>; one \<open>char\<close> stands for one code point
  below 256. The helpers follow the Python string methods the program calls.
\<close>

abbreviation nl :: char where
  "nl \<equiv> CHR 0x0A"

abbreviation quote :: char where
  "quote \<equiv> CHR 0x27"

definition is_space :: "char \<Rightarrow> bool" where
  \<comment> \<open>\<open>str.isspace\<close> on one code point below 256; the class \<open>\s\<close> of \<open>re\<close> is the same set\<close>
  "is_space c = (c \<in> set [CHR 0x09, CHR 0x0A, CHR 0x0B, CHR 0x0C, CHR 0x0D,
                             CHR 0x1C, CHR 0x1D, CHR 0x1E, CHR 0x1F, CHR 0x20,
                             CHR 0x85, CHR 0xA0])"

definition lstrip :: "string \<Rightarrow> string" where
  "lstrip s = dropWhile is_space s"

definition rstrip :: "string \<Rightarrow> string" where
  "rstrip s = rev (dropWhile is_space (rev s))"

definition strip :: "string \<Rightarrow> string" where
  \<comment> \<open>\<open>s.strip()\<close>\<close>
  "strip s = rstrip (lstrip s)"

definition lower_chr :: "char \<Rightarrow> char" where
  \<comment> \<open>lower case of the letters A to Z, other code points as they are: the comparison
      of \<open>re.IGNORECASE\<close> against the ASCII literals of the closing patterns\<close>
  "lower_chr c = (let n = of_char c :: nat in if 65 \<le> n \<and> n \<le> 90 then char_of (n + 32) else c)"

definition lower :: "string \<Rightarrow> string" where
  \<comment> \<open>lower case of the ASCII letters; it is used only to decide
      \<open>subject.lower().startswith("re:")\<close>, which it decides as \<open>str.lower\<close> does, no other
      code point below 256 having \<open>r\<close>, \<open>e\<close> or \<open>:\<close> as its lower case\<close>
  "lower s = map lower_chr s"

definition startswith :: "string \<Rightarrow> string \<Rightarrow> bool" where
  \<comment> \<open>\<open>s.startswith(p)\<close>\<close>
  "startswith s p = (take (length p) s = p)"

fun digits :: "nat \<Rightarrow> string" where
  "digits n = (if n < 10 then [''0123456789'' ! n]
               else digits (n div 10) @ [''0123456789'' ! (n mod 10)])"

declare digits.simps [simp del]

definition str_int :: "int \<Rightarrow> string" where
  \<comment> \<open>\<open>str(n)\<close>, as an f-string renders an integer\<close>
  "str_int n = (if n < 0 then CHR ''-'' # digits (nat (- n)) else digits (nat n))"


section \<open>Data held and exchanged\<close>

type_synonym fault = string
  \<comment> \<open>a raised exception, kept as its message \<open>str(e)\<close>\<close>

datatype part = Part (mimeType: string) (body_data: string) (parts: "part list")
  \<comment> \<open>a payload dict: \<open>mimeType\<close> (absent is the empty string), \<open>body.data\<close> (absent and
      empty are both falsy, kept as the empty string) and \<open>parts\<close> (absent is the empty list)\<close>

record message =
  msg_headers :: "(string \<times> string) list"
  msg_snippet :: string
  msg_threadId :: "string option"
  msg_payload :: part

datatype get_format = Metadata "string list" | Full

record reply_message =
  raw :: string
  threadId :: "string option"

record email_summary =
  sum_number :: int
  sum_id :: string
  sum_from :: string
  sum_subject :: string
  sum_date :: string
  sum_snippet :: string

record email_content =
  ec_number :: int
  ec_id :: string
  ec_from :: string
  ec_subject :: string
  ec_date :: string
  ec_body :: string
  ec_thread_id :: "string option"

datatype result =
    Error string
      \<comment> \<open>\<open>{"error": message}\<close>\<close>
  | NoEmails
      \<comment> \<open>\<open>{"emails": [], "message": "No emails found matching the query."}\<close>\<close>
  | Emails "email_summary list" nat
      \<comment> \<open>\<open>{"emails": emails, "count": len(emails)}\<close>\<close>
  | Email email_content "(string \<times> string) option"
      \<comment> \<open>the dict of \<open>read_email\<close>, with \<open>draft_reply\<close> and \<open>tone\<close> when a draft was made\<close>
  | Draft int string string
      \<comment> \<open>\<open>{"number": number, "draft_reply": draft, "tone": tone}\<close>\<close>
  | Sent string string
      \<comment> \<open>\<open>{"success": True, "sent_to": to_addr, "subject": subject}\<close>\<close>

text \<open>
  The keyword arguments of a tool call: a JSON object read at the types the tool menu
  declares (\<open>max_results\<close> and \<open>email_number\<close> integers, \<open>query\<close> a string,
  \<open>reply_body\<close> a string or null). \<open>None\<close> is an absent key; \<open>kw_other\<close> lists the
  keys that the tool menu does not know.
\<close>

record kwargs =
  kw_max_results :: "int option"
  kw_query :: "string option"
  kw_email_number :: "int option"
  kw_reply_body :: "string option option"
  kw_other :: "string list"

datatype parsed = Object kwargs | NotObject
  \<comment> \<open>what \<open>json.loads\<close> returns: a dict, or a value that is no mapping\<close>

datatype arguments = Structured kwargs | RawText string
  \<comment> \<open>\<open>arguments\<close> of a tool call: already a dict, or a string still to be parsed\<close>

record tool_call =
  tc_name :: string
  tc_arguments :: arguments

datatype role = System | User | Assistant | Tool

record chat_message =
  role :: role
  content :: string
  tool_calls :: "tool_call list"

datatype call =
    ListCall string int
      \<comment> \<open>\<open>messages().list(userId="me", q, maxResults).execute()\<close>\<close>
  | GetCall string get_format
      \<comment> \<open>\<open>messages().get(userId="me", id, format, ...).execute()\<close>\<close>
  | SendCall reply_message
      \<comment> \<open>\<open>messages().send(userId="me", body).execute()\<close>\<close>
  | GenerateCall string rat
      \<comment> \<open>\<open>client.generate_text(prompt, OLLAMA_MODEL, temperature)\<close>\<close>
  | ChatCall "chat_message list"
      \<comment> \<open>\<open>client.chat(model, messages, tools, stream=False)\<close>\<close>

text \<open>
  The Mail Capability and the Language-Model Capability are outside the program. Each
  request is answered from the log of the calls made so far, so that a capability may answer
  the same request differently at different times; \<open>Inl\<close> is a raised exception. The
  answer of \<open>chat\<close> is the \<open>message\<close> of the response. The base64, MIME and JSON codecs
  of the standard library and \<open>str.upper\<close> are parameters too.
\<close>

record env =
  list_messages :: "call list \<Rightarrow> string \<Rightarrow> int \<Rightarrow> fault + string list"
  get_message :: "call list \<Rightarrow> string \<Rightarrow> get_format \<Rightarrow> fault + message"
  send_message :: "call list \<Rightarrow> reply_message \<Rightarrow> fault + unit"
  generate_text :: "call list \<Rightarrow> string \<Rightarrow> rat \<Rightarrow> fault + string"
  client_chat :: "call list \<Rightarrow> chat_message list \<Rightarrow> fault + chat_message"
  b64decode :: "string \<Rightarrow> fault + string"
  mime_encode :: "string \<Rightarrow> string \<Rightarrow> string \<Rightarrow> fault + string"
  json_loads :: "string \<Rightarrow> parsed option"
  json_dumps :: "result \<Rightarrow> string"
  str_upper :: "string \<Rightarrow> string"

record cached_email =
  c_from :: string
  c_subject :: string
  c_body :: string

record mailbox_session =
  index_map :: "int \<rightharpoonup> string"
  last_draft :: "string option"
  last_number :: "int option"
  email_cache :: "int \<rightharpoonup> cached_email"

fun is_mail_call :: "call \<Rightarrow> bool" where
  "is_mail_call (ListCall q n) = True"
| "is_mail_call (GetCall i f) = True"
| "is_mail_call (SendCall m) = True"
| "is_mail_call (GenerateCall p t) = False"
| "is_mail_call (ChatCall ms) = False"

fun is_chat_call :: "call \<Rightarrow> bool" where
  "is_chat_call (ChatCall ms) = True"
| "is_chat_call c = False"


section \<open>MailboxSession\<close>

definition init :: mailbox_session where
  \<comment> \<open>\<open>MailboxSession.__init__\<close>\<close>
  "init = \<lparr>index_map = Map.empty, last_draft = None, last_number = None,
           email_cache = Map.empty\<rparr>"

definition clear :: "mailbox_session \<Rightarrow> mailbox_session" where
  "clear s = s\<lparr>index_map := Map.empty, last_draft := None, last_number := None,
               email_cache := Map.empty\<rparr>"

definition header_get :: "(string \<times> string) list \<Rightarrow> string \<Rightarrow> string \<Rightarrow> string" where
  \<comment> \<open>\<open>{h["name"]: h["value"] for h in ...}.get(name, default)\<close>: a later header
      of the same name replaces an earlier one\<close>
  "header_get hs name dflt = (case map_of (rev hs) name of None \<Rightarrow> dflt | Some v \<Rightarrow> v)"

fun list_loop ::
  "env \<Rightarrow> int \<Rightarrow> string list \<Rightarrow> email_summary list \<Rightarrow> mailbox_session \<Rightarrow> call list
     \<Rightarrow> result \<times> mailbox_session \<times> call list" where
  "list_loop e i [] emails s tr = (Emails emails (length emails), s, tr)"
| "list_loop e i (mid # msgs) emails s tr =
     (let fmt = Metadata [''From'', ''Subject'', ''Date''];
          tr' = tr @ [GetCall mid fmt]
      in case get_message e tr mid fmt of
           Inl err \<Rightarrow> (Error err, s, tr')
         | Inr data \<Rightarrow>
             (let hs = msg_headers data;
                  s' = s\<lparr>index_map := (index_map s)(i \<mapsto> mid)\<rparr>;
                  item = \<lparr>sum_number = i, sum_id = mid,
                          sum_from = header_get hs ''From'' ''Unknown'',
                          sum_subject = header_get hs ''Subject'' ''(No Subject)'',
                          sum_date = header_get hs ''Date'' '''',
                          sum_snippet = take 120 (msg_snippet data)\<rparr>
              in list_loop e (i + 1) msgs (emails @ [item]) s' tr'))"

definition list_emails ::
  "env \<Rightarrow> int \<Rightarrow> string \<Rightarrow> mailbox_session \<Rightarrow> call list
     \<Rightarrow> result \<times> mailbox_session \<times> call list" where
  "list_emails e max_results query s tr =
     (let tr' = tr @ [ListCall query max_results]
      in case list_messages e tr query max_results of
           Inl err \<Rightarrow> (Error err, s, tr')
         | Inr messages \<Rightarrow>
             (let s' = s\<lparr>index_map := Map.empty\<rparr>
              in if messages = [] then (NoEmails, s', tr')
                 else list_loop e 1 messages [] s' tr'))"

definition invalid_number :: "int \<Rightarrow> string" where
  "invalid_number number =
     ''Invalid email number '' @ str_int number @ ''. Please list emails first.''"

subsection \<open>Body extraction\<close>

definition py_take :: "int \<Rightarrow> string \<Rightarrow> string" where
  \<comment> \<open>the slice \<open>s[:m]\<close>\<close>
  "py_take m s = (if 0 \<le> m then take (nat m) s else take (length s - nat (- m)) s)"

fun extract_email_body :: "(string \<Rightarrow> fault + string) \<Rightarrow> int \<Rightarrow> part \<Rightarrow> fault + string"
  and scan_parts :: "(string \<Rightarrow> fault + string) \<Rightarrow> int \<Rightarrow> part list \<Rightarrow> fault + string" where
  "extract_email_body dec max_length (Part mt d ps) =
     (if d \<noteq> [] then
        (case dec d of Inl err \<Rightarrow> Inl err | Inr body \<Rightarrow> Inr (py_take max_length body))
      else scan_parts dec max_length ps)"
| "scan_parts dec max_length [] = Inr []"
| "scan_parts dec max_length (p # ps) =
     (if mimeType p = ''text/plain'' \<and> body_data p \<noteq> [] then
        (case dec (body_data p) of
           Inl err \<Rightarrow> Inl err
         | Inr body \<Rightarrow> Inr (py_take max_length body))
      else if startswith (mimeType p) ''multipart/'' then
        (case extract_email_body dec max_length p of
           Inl err \<Rightarrow> Inl err
         | Inr nested_body \<Rightarrow>
             if nested_body \<noteq> [] then Inr nested_body else scan_parts dec max_length ps)
      else scan_parts dec max_length ps)"

subsection \<open>Addresses and reply messages\<close>

definition parse_email_address :: "string \<Rightarrow> string" where
  "parse_email_address from_header =
     (if CHR ''<'' \<in> set from_header \<and> CHR ''>'' \<in> set from_header then
        strip (rev (dropWhile (\<lambda>c. c = CHR ''>'')
                 (takeWhile (\<lambda>c. c \<noteq> CHR ''<'') (rev from_header))))
      else strip from_header)"

definition re_subject :: "string \<Rightarrow> string" where
  \<comment> \<open>\<open>subject if subject.lower().startswith("re:") else f"Re: {subject}"\<close>\<close>
  "re_subject subject =
     (if startswith (lower subject) ''re:'' then subject else ''Re: '' @ subject)"

definition create_reply_message ::
  "env \<Rightarrow> string \<Rightarrow> string \<Rightarrow> string \<Rightarrow> string option \<Rightarrow> fault + reply_message" where
  "create_reply_message e to_address subject body thread_id =
     (case mime_encode e to_address (re_subject subject) body of
        Inl err \<Rightarrow> Inl err
      | Inr r \<Rightarrow>
          Inr \<lparr>raw = r,
               threadId = (case thread_id of
                             None \<Rightarrow> None
                           | Some t \<Rightarrow> if t = [] then None else Some t)\<rparr>)"

section \<open>Regular expressions of the draft clean-up\<close>

text \<open>
  The fragment of \<open>re\<close> that the closing patterns use, under the flags
  \<open>IGNORECASE | DOTALL\<close>. \<open>rx_match r s\<close> lists what is left of \<open>s\<close> after each way of
  matching \<open>r\<close> at its start, in the order in which the backtracking matcher tries them
  (greedy repetition first, alternatives from left to right).
\<close>

datatype atom =
    Lit char            \<comment> \<open>a literal, compared without case\<close>
  | Space               \<comment> \<open>\<open>\s\<close>\<close>
  | AnyChar             \<comment> \<open>\<open>.\<close> under DOTALL\<close>
  | OneOf "char list"   \<comment> \<open>a set \<open>[...]\<close>\<close>

datatype rx =
    Eps
  | Atom atom
  | Star atom           \<comment> \<open>\<open>a*\<close>\<close>
  | Opt rx              \<comment> \<open>\<open>(r)?\<close>\<close>
  | Seq rx rx
  | Alt rx rx           \<comment> \<open>\<open>r1|r2\<close>\<close>
  | Eos                 \<comment> \<open>\<open>$\<close>: the end of the text, or just before a newline that ends it\<close>

fun atom_ok :: "atom \<Rightarrow> char \<Rightarrow> bool" where
  "atom_ok (Lit a) c = (lower_chr c = lower_chr a)"
| "atom_ok Space c = is_space c"
| "atom_ok AnyChar c = True"
| "atom_ok (OneOf cs) c = (lower_chr c \<in> set (map lower_chr cs))"

fun star_match :: "atom \<Rightarrow> string \<Rightarrow> string list" where
  "star_match a [] = [[]]"
| "star_match a (c # cs) = (if atom_ok a c then star_match a cs @ [c # cs] else [c # cs])"

fun rx_match :: "rx \<Rightarrow> string \<Rightarrow> string list" where
  "rx_match Eps s = [s]"
| "rx_match (Atom a) s = (case s of [] \<Rightarrow> [] | c # cs \<Rightarrow> if atom_ok a c then [cs] else [])"
| "rx_match (Star a) s = star_match a s"
| "rx_match (Opt r) s = rx_match r s @ [s]"
| "rx_match (Seq r1 r2) s = concat (map (rx_match r2) (rx_match r1 s))"
| "rx_match (Alt r1 r2) s = rx_match r1 s @ rx_match r2 s"
| "rx_match Eos s = (if s = [] \<or> s = [nl] then [s] else [])"

function re_sub :: "rx \<Rightarrow> string \<Rightarrow> string" where
  \<comment> \<open>\<open>re.sub(r, '', s)\<close>: from left to right, the first match that is not empty is cut out\<close>
  "re_sub r [] = []"
| "re_sub r (c # cs) =
     (case find (\<lambda>rest. length rest < Suc (length cs)) (rx_match r (c # cs)) of
        None \<Rightarrow> c # re_sub r cs
      | Some rest \<Rightarrow> re_sub r rest)"
  by pat_completeness auto
termination
  by (relation "measure (\<lambda>(r, s). length s)") (auto simp: find_Some_iff)

definition lit :: "string \<Rightarrow> rx" where
  "lit s = foldr (\<lambda>c r. Seq (Atom (Lit c)) r) s Eps"

fun alts :: "rx list \<Rightarrow> rx" where
  "alts [] = Eps"
| "alts [r] = r"
| "alts (r # rs) = Alt r (alts rs)"

definition seqs :: "rx list \<Rightarrow> rx" where
  "seqs rs = foldr Seq rs Eps"

definition closing_phrases :: "string list" where
  "closing_phrases =
     [''Best regards'', ''Kind regards'', ''Regards'', ''Sincerely'', ''Thanks'',
      ''Thank you'', ''Cheers'', ''Warm regards'', ''Best'', ''Yours truly'',
      ''Yours sincerely'', ''Warmly'', ''Take care'', ''With appreciation'']"

definition closings :: rx where
  "closings = alts (map lit closing_phrases)"

definition closing_pattern1 :: rx where
  "closing_pattern1 =
     seqs [Atom (Lit nl), Star Space, closings, Opt (Atom (OneOf '',.'')), Star Space,
           Opt (Atom (Lit nl)), Star Space, Opt (Seq (lit ''Ayaan'') (Star AnyChar)), Eos]"

definition closing_pattern2 :: rx where
  "closing_pattern2 =
     seqs [Atom (Lit nl), Star Space, closings, Opt (Atom (OneOf '',.'')), Star Space, Eos]"

definition closing_pattern3 :: rx where
  "closing_pattern3 =
     seqs [Atom (Lit nl), Star Space, Opt (Atom (Lit CHR ''-'')), Star Space, lit ''Ayaan'',
           Star AnyChar, Eos]"

definition closing_patterns :: "rx list" where
  "closing_patterns = [closing_pattern1, closing_pattern2, closing_pattern3]"


section \<open>Draft generation\<close>

record tone_config =
  instruction :: string
  signature :: string
  temperature :: rat

definition normal_config :: tone_config where
  "normal_config =
     \<lparr>instruction =
        ''Write a NORMAL, straightforward email reply. '' @
        ''Use a balanced tone that is neither too formal nor too casual. '' @
        ''Be clear, helpful, and polite. '' @
        ''Keep it simple and to the point.'',
      signature = ''Regards,\<newline>Ayaan'',
      temperature = 7 / 10\<rparr>"

definition friendly_config :: tone_config where
  "friendly_config =
     \<lparr>instruction =
        ''Write a WARM, FRIENDLY, and CASUAL reply. '' @
        ''Use a conversational, approachable tone like you're writing to a friend. '' @
        ''Feel free to use casual expressions, contractions, and show enthusiasm! '' @
        ''Add warmth with phrases like 'Hey!', 'Thanks so much!', 'That sounds great!'. '' @
        ''Use exclamation points where appropriate to convey energy and positivity. '' @
        ''Be personable, genuine, and make the recipient feel valued.'',
      signature = ''Regards,\<newline>Ayaan'',
      temperature = 9 / 10\<rparr>"

definition professional_config :: tone_config where
  "professional_config =
     \<lparr>instruction =
        ''Write a FORMAL and PROFESSIONAL reply suitable for official correspondence. '' @
        ''Use formal language with proper salutations like 'Dear Sir/Madam' or 'Dear Mr./Ms. [Name]'. '' @
        ''Maintain a serious, respectful, and professional tone throughout. '' @
        ''Use formal phrases like 'I am writing to...', 'Thank you for your correspondence...'. '' @
        ''Avoid contractions (use 'I am' not 'I'm', 'do not' not 'don't'). '' @
        ''Be precise, structured, and courteous.'',
      signature =
        ''Regards,\<newline>Ayaan Asish\<newline>Grade 11\<newline>West Carleton Secondary School, Ontario'',
      temperature = 5 / 10\<rparr>"

definition tone_configs :: "string \<rightharpoonup> tone_config" where
  "tone_configs =
     [''normal'' \<mapsto> normal_config, ''friendly'' \<mapsto> friendly_config,
      ''professional'' \<mapsto> professional_config]"

definition config_of :: "string \<Rightarrow> tone_config" where
  \<comment> \<open>\<open>tone_configs.get(tone, tone_configs["normal"])\<close>\<close>
  "config_of tone = (case tone_configs tone of None \<Rightarrow> normal_config | Some c \<Rightarrow> c)"

definition fallback :: "string \<Rightarrow> string" where
  "fallback subject =
     ''Thank you for your email regarding '' @ [quote] @ subject @ [quote] @
     ''. I will review and respond shortly.''"

definition compose_prompt ::
  "env \<Rightarrow> string \<Rightarrow> string \<Rightarrow> string \<Rightarrow> string \<Rightarrow> string \<Rightarrow> string" where
  "compose_prompt e tone instr from_addr subject body =
     ''You are an email assistant writing on behalf of Ayaan. Write a reply in a SPECIFIC tone.\<newline>\<newline>'' @
     ''=== TONE: '' @ str_upper e tone @ '' ===\<newline>'' @
     instr @ ''\<newline>\<newline>'' @
     ''=== ORIGINAL EMAIL ===\<newline>'' @
     ''From: '' @ from_addr @ ''\<newline>'' @
     ''Subject: '' @ subject @ ''\<newline>\<newline>'' @
     body @ ''\<newline>'' @
     ''=== END OF EMAIL ===\<newline>\<newline>'' @
     ''=== CRITICAL INSTRUCTIONS ===\<newline>'' @
     ''1. Write ONLY the email body content\<newline>'' @
     ''2. Do NOT include any Subject line or email headers\<newline>'' @
     ''3. Do NOT add ANY signature or closing at the end\<newline>'' @
     ''4. Do NOT write 'Regards', 'Best regards', 'Sincerely', 'Thanks', 'Cheers', or ANY closing phrase\<newline>'' @
     ''5. Do NOT sign off with any name\<newline>'' @
     ''6. Just write the main message content and STOP\<newline>'' @
     ''7. The tone MUST be clearly '' @ str_upper e tone @ ''\<newline>\<newline>'' @
     ''Write the reply body now (NO signature, NO closing):''"

definition clean_up :: "string \<Rightarrow> string" where
  \<comment> \<open>\<open>draft.strip()\<close>, then for each closing pattern \<open>re.sub(pattern, '', draft).strip()\<close>\<close>
  "clean_up draft = foldl (\<lambda>d pattern. strip (re_sub pattern d)) (strip draft) closing_patterns"

definition generate_draft ::
  "env \<Rightarrow> string \<Rightarrow> string \<Rightarrow> string \<Rightarrow> string \<Rightarrow> call list \<Rightarrow> string \<times> call list" where
  \<comment> \<open>\<open>MailboxSession._generate_draft\<close>\<close>
  "generate_draft e from_addr subject body tone tr =
     (let config = config_of tone;
          prompt = compose_prompt e tone (instruction config) from_addr subject body;
          tr' = tr @ [GenerateCall prompt (temperature config)]
      in case generate_text e tr prompt (temperature config) of
           Inl err \<Rightarrow> (fallback subject @ ''\<newline>\<newline>'' @ signature config, tr')
         | Inr draft \<Rightarrow>
             (let draft1 = (if draft = [] \<or> strip draft = [] then fallback subject else draft)
              in (clean_up draft1 @ ''\<newline>\<newline>'' @ signature config, tr')))"


section \<open>Reading, redrafting and sending\<close>

definition read_email ::
  "env \<Rightarrow> int \<Rightarrow> bool \<Rightarrow> string \<Rightarrow> mailbox_session \<Rightarrow> call list
     \<Rightarrow> result \<times> mailbox_session \<times> call list" where
  "read_email e number gen_draft tone s tr =
     (case index_map s number of
        None \<Rightarrow> (Error (invalid_number number), s, tr)
      | Some email_id \<Rightarrow>
          if email_id = [] then (Error (invalid_number number), s, tr)
          else
            (let tr1 = tr @ [GetCall email_id Full]
             in case get_message e tr email_id Full of
                  Inl err \<Rightarrow> (Error err, s, tr1)
                | Inr msg \<Rightarrow>
                    (case extract_email_body (b64decode e) 3000 (msg_payload msg) of
                       Inl err \<Rightarrow> (Error err, s, tr1)
                     | Inr body \<Rightarrow>
                         (let hs = msg_headers msg;
                              res = \<lparr>ec_number = number, ec_id = email_id,
                                     ec_from = header_get hs ''From'' ''Unknown'',
                                     ec_subject = header_get hs ''Subject'' ''(No Subject)'',
                                     ec_date = header_get hs ''Date'' '''',
                                     ec_body = body,
                                     ec_thread_id = msg_threadId msg\<rparr>;
                              s1 = s\<lparr>email_cache := (email_cache s)(number \<mapsto>
                                       \<lparr>c_from = header_get hs ''From'' '''',
                                        c_subject = header_get hs ''Subject'' '''',
                                        c_body = body\<rparr>)\<rparr>
                          in if gen_draft then
                               (let (draft, tr2) =
                                      generate_draft e (header_get hs ''From'' '''')
                                        (header_get hs ''Subject'' '''') body tone tr1
                                in (Email res (Some (draft, tone)),
                                    s1\<lparr>last_draft := Some draft, last_number := Some number\<rparr>,
                                    tr2))
                             else (Email res None, s1, tr1)))))"

definition regenerate_draft ::
  "env \<Rightarrow> int \<Rightarrow> string \<Rightarrow> mailbox_session \<Rightarrow> call list
     \<Rightarrow> result \<times> mailbox_session \<times> call list" where
  "regenerate_draft e number tone s tr =
     (case email_cache s number of
        None \<Rightarrow>
          (Error (''Email '' @ str_int number @
                  '' not found in cache. Please read the email first.''), s, tr)
      | Some cached \<Rightarrow>
          (let (draft, tr1) =
                 generate_draft e (c_from cached) (c_subject cached) (c_body cached) tone tr
           in (Draft number draft tone,
               s\<lparr>last_draft := Some draft, last_number := Some number\<rparr>, tr1)))"

definition no_draft :: string where
  "no_draft =
     ''No draft available for this email. Please read the email first to generate a draft.''"

definition send_reply ::
  "env \<Rightarrow> int \<Rightarrow> string option \<Rightarrow> mailbox_session \<Rightarrow> call list
     \<Rightarrow> result \<times> mailbox_session \<times> call list" where
  "send_reply e number reply_body s tr =
     (case index_map s number of
        None \<Rightarrow> (Error (invalid_number number), s, tr)
      | Some email_id \<Rightarrow>
          if email_id = [] then (Error (invalid_number number), s, tr)
          else
            (case (case reply_body of
                     Some b \<Rightarrow> Some b
                   | None \<Rightarrow>
                       (case last_draft s of
                          None \<Rightarrow> None
                        | Some d \<Rightarrow>
                            if last_number s \<noteq> Some number \<or> d = [] then None else Some d)) of
               None \<Rightarrow> (Error no_draft, s, tr)
             | Some body \<Rightarrow>
                 (let fmt = Metadata [''From'', ''Subject''];
                      tr1 = tr @ [GetCall email_id fmt]
                  in case get_message e tr email_id fmt of
                       Inl err \<Rightarrow> (Error err, s, tr1)
                     | Inr orig \<Rightarrow>
                         (let hs = msg_headers orig;
                              to_addr = parse_email_address (header_get hs ''From'' '''');
                              subject = header_get hs ''Subject'' ''''
                          in case create_reply_message e to_addr subject body
                                    (msg_threadId orig) of
                               Inl err \<Rightarrow> (Error err, s, tr1)
                             | Inr message \<Rightarrow>
                                 (let tr2 = tr1 @ [SendCall message]
                                  in case send_message e tr1 message of
                                       Inl err \<Rightarrow> (Error err, s, tr2)
                                     | Inr ack \<Rightarrow>
                                         (let s' = (if last_number s = Some number
                                                    then s\<lparr>last_draft := None,
                                                           last_number := None\<rparr>
                                                    else s)
                                          in (Sent to_addr (re_subject subject), s', tr2)))))))"

section \<open>GmailAgent\<close>

record gmail_agent =
  mailbox :: mailbox_session
  conversation_history :: "chat_message list"

definition SYSTEM_PROMPT :: string where
  \<open>SYSTEM_PROMPT =
     ''You are a helpful Gmail assistant. You can help users manage their emails.\<newline>\<newline>'' @
     ''Available tools:\<newline>'' @
     ''1. list_emails - List emails from the inbox. Use query parameter for filtering (e.g., "is:unread", "from:someone@email.com")\<newline>'' @
     ''2. read_email - Read the full content of an email by its number. This also generates a draft reply.\<newline>'' @
     ''3. send_email_reply - Send a reply to an email. ONLY use this after the user explicitly approves the draft.\<newline>\<newline>'' @
     ''IMPORTANT RULES:\<newline>'' @
     ''- When user asks to see their emails, use list_emails\<newline>'' @
     ''- When user wants to read an email, use read_email with the email number\<newline>'' @
     ''- NEVER send an email without explicit user approval\<newline>'' @
     ''- Always show the draft to the user and ask for confirmation before sending\<newline>'' @
     ''- Be helpful and concise in your responses\<newline>''\<close>

definition type_error :: fault where
  \<comment> \<open>the \<open>TypeError\<close> of a call whose keyword arguments do not fit the parameters\<close>
  "type_error = ''TypeError''"

type_synonym tool =
  "kwargs \<Rightarrow> mailbox_session \<Rightarrow> call list \<Rightarrow> (fault + result) \<times> mailbox_session \<times> call list"

definition tool_list_emails :: "env \<Rightarrow> tool" where
  \<comment> \<open>\<open>_tool_list_emails(self, max_results=10, query="is:unread")\<close> called with \<open>**kw\<close>\<close>
  "tool_list_emails e kw s tr =
     (if kw_email_number kw \<noteq> None \<or> kw_reply_body kw \<noteq> None \<or> kw_other kw \<noteq> []
      then (Inl type_error, s, tr)
      else (let (r, s', tr') =
                  list_emails e (case kw_max_results kw of None \<Rightarrow> 10 | Some n \<Rightarrow> n)
                    (case kw_query kw of None \<Rightarrow> ''is:unread'' | Some q \<Rightarrow> q) s tr
            in (Inr r, s', tr')))"

definition tool_read_email :: "env \<Rightarrow> tool" where
  \<comment> \<open>\<open>_tool_read_email(self, email_number)\<close> called with \<open>**kw\<close>\<close>
  "tool_read_email e kw s tr =
     (if kw_max_results kw \<noteq> None \<or> kw_query kw \<noteq> None \<or> kw_reply_body kw \<noteq> None
         \<or> kw_other kw \<noteq> []
      then (Inl type_error, s, tr)
      else case kw_email_number kw of
             None \<Rightarrow> (Inl type_error, s, tr)
           | Some n \<Rightarrow>
               (let (r, s', tr') = read_email e n True ''normal'' s tr in (Inr r, s', tr')))"

definition tool_send_reply :: "env \<Rightarrow> tool" where
  \<comment> \<open>\<open>_tool_send_reply(self, email_number, reply_body=None)\<close> called with \<open>**kw\<close>\<close>
  "tool_send_reply e kw s tr =
     (if kw_max_results kw \<noteq> None \<or> kw_query kw \<noteq> None \<or> kw_other kw \<noteq> []
      then (Inl type_error, s, tr)
      else case kw_email_number kw of
             None \<Rightarrow> (Inl type_error, s, tr)
           | Some n \<Rightarrow>
               (let (r, s', tr') =
                      send_reply e n (case kw_reply_body kw of None \<Rightarrow> None | Some b \<Rightarrow> b) s tr
                in (Inr r, s', tr')))"

definition tool_functions :: "env \<Rightarrow> string \<rightharpoonup> tool" where
  "tool_functions e =
     [''list_emails'' \<mapsto> tool_list_emails e, ''read_email'' \<mapsto> tool_read_email e,
      ''send_email_reply'' \<mapsto> tool_send_reply e]"

definition empty_kwargs :: kwargs where
  "empty_kwargs = \<lparr>kw_max_results = None, kw_query = None, kw_email_number = None,
                    kw_reply_body = None, kw_other = []\<rparr>"

definition parse_arguments :: "env \<Rightarrow> arguments \<Rightarrow> parsed" where
  \<comment> \<open>a string is parsed once; a \<open>JSONDecodeError\<close> leaves the empty dict\<close>
  "parse_arguments e args =
     (case args of
        Structured kw \<Rightarrow> Object kw
      | RawText t \<Rightarrow> (case json_loads e t of None \<Rightarrow> Object empty_kwargs | Some p \<Rightarrow> p))"

definition dispatch ::
  "env \<Rightarrow> tool_call \<Rightarrow> mailbox_session \<Rightarrow> call list
     \<Rightarrow> (fault + result) \<times> mailbox_session \<times> call list" where
  "dispatch e tc s tr =
     (let func_args = parse_arguments e (tc_arguments tc)
      in case tool_functions e (tc_name tc) of
           Some f \<Rightarrow>
             (case func_args of
                Object kw \<Rightarrow> f kw s tr
              | NotObject \<Rightarrow> (Inl type_error, s, tr))
         | None \<Rightarrow> (Inr (Error (''Unknown function: '' @ tc_name tc)), s, tr))"

fun run_tool_calls ::
  "env \<Rightarrow> tool_call list \<Rightarrow> gmail_agent \<Rightarrow> call list
     \<Rightarrow> (fault + unit) \<times> gmail_agent \<times> call list" where
  "run_tool_calls e [] a tr = (Inr (), a, tr)"
| "run_tool_calls e (tc # tcs) a tr =
     (case dispatch e tc (mailbox a) tr of
        (Inl err, s', tr') \<Rightarrow> (Inl err, a\<lparr>mailbox := s'\<rparr>, tr')
      | (Inr res, s', tr') \<Rightarrow>
          run_tool_calls e tcs
            (a\<lparr>mailbox := s',
               conversation_history := conversation_history a @
                 [\<lparr>role = Tool, content = json_dumps e res, tool_calls = []\<rparr>]\<rparr>) tr')"

definition system_message :: chat_message where
  "system_message = \<lparr>role = System, content = SYSTEM_PROMPT, tool_calls = []\<rparr>"

definition chat ::
  "env \<Rightarrow> string \<Rightarrow> gmail_agent \<Rightarrow> call list \<Rightarrow> (fault + string) \<times> gmail_agent \<times> call list" where
  "chat e user_message a tr =
     (let a1 = a\<lparr>conversation_history := conversation_history a @
                  [\<lparr>role = User, content = user_message, tool_calls = []\<rparr>]\<rparr>;
          messages = system_message # conversation_history a1;
          tr1 = tr @ [ChatCall messages]
      in case client_chat e tr messages of
           Inl err \<Rightarrow> (Inl err, a1, tr1)
         | Inr assistant_message \<Rightarrow>
             if tool_calls assistant_message \<noteq> [] then
               (let a2 = a1\<lparr>conversation_history :=
                              conversation_history a1 @ [assistant_message]\<rparr>
                in case run_tool_calls e (tool_calls assistant_message) a2 tr1 of
                     (Inl err, a3, tr2) \<Rightarrow> (Inl err, a3, tr2)
                   | (Inr u, a3, tr2) \<Rightarrow>
                       (let messages2 = system_message # conversation_history a3;
                            tr3 = tr2 @ [ChatCall messages2]
                        in case client_chat e tr2 messages2 of
                             Inl err \<Rightarrow> (Inl err, a3, tr3)
                           | Inr final \<Rightarrow>
                               (Inr (content final),
                                a3\<lparr>conversation_history := conversation_history a3 @
                                     [\<lparr>role = Assistant, content = content final,
                                       tool_calls = []\<rparr>]\<rparr>, tr3)))
             else
               (Inr (content assistant_message),
                a1\<lparr>conversation_history := conversation_history a1 @
                     [\<lparr>role = Assistant, content = content assistant_message,
                       tool_calls = []\<rparr>]\<rparr>, tr1))"


definition reset :: "gmail_agent \<Rightarrow> gmail_agent" where
  "reset a = a\<lparr>mailbox := clear (mailbox a), conversation_history := []\<rparr>"


section \<open>Properties stated of the program\<close>

definition draft_inv :: "mailbox_session \<Rightarrow> bool" where
  \<comment> \<open>the pending draft and the handle it belongs to are set together\<close>
  "draft_inv s = (last_draft s = None \<longleftrightarrow> last_number s = None)"

definition is_error :: "result \<Rightarrow> bool" where
  "is_error r = (case r of Error m \<Rightarrow> True | _ \<Rightarrow> False)"

definition list_fmt :: get_format where
  "list_fmt = Metadata [''From'', ''Subject'', ''Date'']"

definition fetches :: "string list \<Rightarrow> call list" where
  "fetches ids = map (\<lambda>i. GetCall i list_fmt) ids"

definition handles :: "int \<Rightarrow> nat \<Rightarrow> string list \<Rightarrow> (int \<rightharpoonup> string) \<Rightarrow> (int \<rightharpoonup> string)" where
  "handles i j ids m = (\<lambda>k. if i \<le> k \<and> k < i + int j then Some (ids ! nat (k - i)) else m k)"

fun is_send_call :: "call \<Rightarrow> bool" where
  "is_send_call (SendCall m) = True"
| "is_send_call c = False"

definition plain_with_data :: "part \<Rightarrow> bool" where
  "plain_with_data p = (mimeType p = ''text/plain'' \<and> body_data p \<noteq> [])"

definition skipped :: "(string \<Rightarrow> fault + string) \<Rightarrow> part \<Rightarrow> bool" where
  "skipped dec p =
     (\<not> plain_with_data p \<and>
      (startswith (mimeType p) ''multipart/'' \<longrightarrow> extract_email_body dec 3000 p = Inr []))"

fun has_plain :: "part \<Rightarrow> bool" where
  "has_plain (Part mt d ps) = (mt = ''text/plain'' \<or> list_ex has_plain ps)"

fun no_text_below :: "part \<Rightarrow> bool" where
  "no_text_below (Part mt d ps) =
     list_all (\<lambda>p. \<not> plain_with_data p \<and>
                    \<not> (startswith (mimeType p) ''multipart/'' \<and> body_data p \<noteq> []) \<and>
                    no_text_below p) ps"

definition user_msg :: "string \<Rightarrow> chat_message" where
  "user_msg t = \<lparr>role = User, content = t, tool_calls = []\<rparr>"


definition binds :: "env \<Rightarrow> tool_call \<Rightarrow> bool" where
  "binds e tc =
     (case parse_arguments e (tc_arguments tc) of
        NotObject \<Rightarrow> tc_name tc \<notin> {''list_emails'', ''read_email'', ''send_email_reply''}
      | Object kw \<Rightarrow>
          (tc_name tc = ''list_emails'' \<longrightarrow>
             kw_email_number kw = None \<and> kw_reply_body kw = None \<and> kw_other kw = []) \<and>
          (tc_name tc = ''read_email'' \<longrightarrow>
             kw_max_results kw = None \<and> kw_query kw = None \<and> kw_reply_body kw = None \<and>
             kw_other kw = [] \<and> kw_email_number kw \<noteq> None) \<and>
          (tc_name tc = ''send_email_reply'' \<longrightarrow>
             kw_max_results kw = None \<and> kw_query kw = None \<and> kw_other kw = [] \<and>
             kw_email_number kw \<noteq> None))"

definition tool_message :: "env \<Rightarrow> result \<Rightarrow> chat_message" where
  "tool_message e res = \<lparr>role = Tool, content = json_dumps e res, tool_calls = []\<rparr>"

definition assistant_msg :: "string \<Rightarrow> chat_message" where
  "assistant_msg t = \<lparr>role = Assistant, content = t, tool_calls = []\<rparr>"


definition name_line :: "string \<Rightarrow> bool" where
  \<comment> \<open>nothing, or white space and a line that starts with \<open>Ayaan\<close> in any letter case\<close>
  "name_line tail =
     (tail = [] \<or>
      (\<exists>ws name rest. tail = ws @ name @ rest \<and> list_all is_space ws \<and>
         map lower_chr name = map lower_chr ''Ayaan''))"

definition closing_line :: "string \<Rightarrow> string \<Rightarrow> bool" where
  \<comment> \<open>white space with a line break, a listed phrase in any letter case, an optional comma
      or full stop, and then nothing or a name line\<close>
  "closing_line gap c =
     (list_all is_space gap \<and> nl \<in> set gap \<and>
      (\<exists>p q sep tail. c = q @ sep @ tail \<and> p \<in> set closing_phrases \<and>
         map lower_chr q = map lower_chr p \<and> sep \<in> set ['''', '','', ''.''] \<and> name_line tail))"

fun after_breaks :: "string \<Rightarrow> string list" where
  \<comment> \<open>what follows each line break of a text\<close>
  "after_breaks [] = []"
| "after_breaks (c # cs) = (if c = nl then [cs] else []) @ after_breaks cs"

definition no_cut :: "string \<Rightarrow> bool" where
  \<comment> \<open>from no line break of the text does a closing pattern match\<close>
  "no_cut x =
     list_all (\<lambda>post. list_all (\<lambda>pattern. rx_match pattern (nl # post) = []) closing_patterns)
       (after_breaks x)"

definition no_earlier_cut :: "string \<Rightarrow> string \<Rightarrow> bool" where
  \<comment> \<open>from no line break of \<open>t\<close> does a closing pattern match: the first one not to the end
      of the whole text \<open>t @ rest\<close>, the others not to the end of \<open>t\<close>\<close>
  "no_earlier_cut t rest =
     list_all (\<lambda>post. rx_match closing_pattern1 (nl # post @ rest) = [] \<and>
                       rx_match closing_pattern2 (nl # post) = [] \<and>
                       rx_match closing_pattern3 (nl # post) = [])
       (after_breaks t)"


section \<open>Test doubles\<close>

definition sample_message :: "string \<Rightarrow> message" where
  "sample_message i =
     \<lparr>msg_headers = [(''From'', ''Ann <ann@example.com>''), (''Subject'', ''Lunch '' @ i)],
      msg_snippet = ''Are you free on Friday?'',
      msg_threadId = Some ''t1'',
      msg_payload = Part ''text/plain'' ''QXJlIHlvdSBmcmVlPw=='' []\<rparr>"

definition ascii_upper :: "string \<Rightarrow> string" where
  \<comment> \<open>upper case of the letters a to z, other code points as they are\<close>
  "ascii_upper s =
     map (\<lambda>c. let n = of_char c :: nat in if 97 \<le> n \<and> n \<le> 122 then char_of (n - 32) else c) s"

definition stub_env :: env where
  \<comment> \<open>capabilities that never fault: three messages listed, one fixed model output\<close>
  "stub_env =
     \<lparr>list_messages = (\<lambda>tr q n. Inr [''a'', ''b'', ''c'']),
      get_message = (\<lambda>tr i f. Inr (sample_message i)),
      send_message = (\<lambda>tr m. Inr ()),
      generate_text = (\<lambda>tr p t. Inr ''Friday works for me.''),
      client_chat = (\<lambda>tr ms. Inr \<lparr>role = Assistant, content = ''Done.'', tool_calls = []\<rparr>),
      b64decode = (\<lambda>d. Inr ''Are you free?''),
      mime_encode = (\<lambda>t sj b. Inr b),
      json_loads = (\<lambda>t. None),
      json_dumps = (\<lambda>r. ''{}''),
      str_upper = ascii_upper\<rparr>"

definition listed :: mailbox_session where
  \<comment> \<open>a session after a listing of three messages\<close>
  "listed = init\<lparr>index_map := [1 \<mapsto> ''a'', 2 \<mapsto> ''b'', 3 \<mapsto> ''c'']\<rparr>"

definition faulty_env :: env where
  "faulty_env = stub_env
     \<lparr>list_messages := (\<lambda>tr q n. Inr [''n1'', ''n2'']),
      get_message := (\<lambda>tr i f. if i = ''n2'' then Inl ''HttpError 500'' else Inr (sample_message i))\<rparr>"

definition down_env :: env where
  "down_env = stub_env\<lparr>list_messages := (\<lambda>tr q n. Inl ''HttpError 503'')\<rparr>"

definition empty_id :: mailbox_session where
  "empty_id = init\<lparr>index_map := [1 \<mapsto> '''']\<rparr>"

definition drafted :: mailbox_session where
  "drafted = listed\<lparr>last_draft := Some ''Friday works for me.\<newline>\<newline>Regards,\<newline>Ayaan'',
                     last_number := Some 2\<rparr>"

definition b64_table :: "string \<Rightarrow> fault + string" where
  "b64_table d = (if d = ''aGk='' then Inr ''hi''
                  else if d = ''Ynll'' then Inr ''bye''
                  else Inl ''Incorrect padding'')"

definition wishes_env :: env where
  "wishes_env = stub_env
     \<lparr>generate_text := (\<lambda>tr p t. Inr ''Friday works for me.\<newline>Best wishes,\<newline>Ayaan'')\<rparr>"

definition signing_env :: env where
  "signing_env = stub_env
     \<lparr>generate_text := (\<lambda>tr p t.
        Inr '' Hi Ann,\<newline>Friday works for me. \<newline>\<newline>  best regards,\<newline> ayaan asish\<newline>'')\<rparr>"

definition plain_env :: env where
  "plain_env = stub_env
     \<lparr>generate_text := (\<lambda>tr p t. Inr ''Hi Ann,\<newline>Friday works for me.'')\<rparr>"

definition silent_env :: env where
  "silent_env = stub_env\<lparr>generate_text := (\<lambda>tr p t. Inr ''  '')\<rparr>"

definition tool_env :: "tool_call list \<Rightarrow> env" where
  "tool_env tcs = stub_env
     \<lparr>client_chat := (\<lambda>tr ms.
        if filter is_chat_call tr = []
        then Inr \<lparr>role = Assistant, content = '''', tool_calls = tcs\<rparr>
        else Inr \<lparr>role = Assistant, content = ''Here you go.'',
                  tool_calls = [\<lparr>tc_name = ''list_emails'',
                                 tc_arguments = Structured empty_kwargs\<rparr>]\<rparr>)\<rparr>"

definition new_agent :: gmail_agent where
  "new_agent = \<lparr>mailbox = listed, conversation_history = []\<rparr>"

definition read_raw :: tool_call where
  "read_raw = \<lparr>tc_name = ''read_email'', tc_arguments = RawText ''{email_number: 2''\<rparr>"

definition read_wrong_key :: tool_call where
  "read_wrong_key = \<lparr>tc_name = ''read_email'',
                      tc_arguments = Structured (empty_kwargs\<lparr>kw_other := [''number'']\<rparr>)\<rparr>"

definition list_call :: tool_call where
  "list_call = \<lparr>tc_name = ''list_emails'', tc_arguments = Structured empty_kwargs\<rparr>"


section \<open>The listing loop\<close>

lemma list_loop_keeps:
  "list_loop e i msgs emails s tr = (r, s', tr') \<Longrightarrow>
     last_draft s' = last_draft s \<and> last_number s' = last_number s \<and>
     email_cache s' = email_cache s"
proof (induction msgs arbitrary: i emails s tr)
  case Nil
  then show ?case by simp
next
  case (Cons mid msgs)
  show ?case
  proof (cases "get_message e tr mid (Metadata [''From'', ''Subject'', ''Date''])")
    case (Inl err)
    with Cons.prems show ?thesis by (simp add: Let_def)
  next
    case (Inr data)
    with Cons.prems Cons.IH show ?thesis by (fastforce simp: Let_def)
  qed
qed

lemma list_emails_keeps:
  "list_emails e m q s tr = (r, s', tr') \<Longrightarrow>
     last_draft s' = last_draft s \<and> last_number s' = last_number s \<and>
     email_cache s' = email_cache s"
  by (auto simp: list_emails_def Let_def split: sum.splits if_splits dest: list_loop_keeps)

lemma handles_0: "handles i 0 ids m = m"
  by (rule ext) (auto simp: handles_def)

lemma handles_Suc:
  "handles (i + 1) j ids (m(i \<mapsto> mid)) = handles i (Suc j) (mid # ids) m"
proof
  fix k
  show "handles (i + 1) j ids (m(i \<mapsto> mid)) k = handles i (Suc j) (mid # ids) m k"
  proof (cases "k = i")
    case True
    then show ?thesis by (simp add: handles_def)
  next
    case False
    have "i + 1 \<le> k \<Longrightarrow> nat (k - i) = Suc (nat (k - (i + 1)))" by simp
    with False show ?thesis by (auto simp: handles_def)
  qed
qed

lemma list_loop_fault:
  "j < length msgs \<Longrightarrow>
   (\<forall>k<j. \<exists>d. get_message e (tr @ fetches (take k msgs)) (msgs ! k) list_fmt = Inr d) \<Longrightarrow>
   get_message e (tr @ fetches (take j msgs)) (msgs ! j) list_fmt = Inl err \<Longrightarrow>
   list_loop e i msgs emails s tr =
     (Error err, s\<lparr>index_map := handles i j msgs (index_map s)\<rparr>,
      tr @ fetches (take (Suc j) msgs))"
proof (induction msgs arbitrary: j i emails s tr)
  case Nil
  then show ?case by simp
next
  case (Cons mid msgs)
  show ?case
  proof (cases j)
    case 0
    with Cons.prems show ?thesis
      by (simp add: Let_def fetches_def handles_0 list_fmt_def)
  next
    case (Suc j')
    from Cons.prems(2) Suc obtain d where d: "get_message e tr mid list_fmt = Inr d"
      by (fastforce simp: fetches_def)
    let ?tr = "tr @ [GetCall mid list_fmt]"
    have a: "j' < length msgs" using Cons.prems(1) Suc by simp
    have b: "\<forall>k<j'. \<exists>d. get_message e (?tr @ fetches (take k msgs)) (msgs ! k) list_fmt = Inr d"
    proof (intro allI impI)
      fix k assume "k < j'"
      then have "Suc k < j" using Suc by simp
      with Cons.prems(2) show "\<exists>d. get_message e (?tr @ fetches (take k msgs)) (msgs ! k) list_fmt = Inr d"
        by (fastforce simp: fetches_def)
    qed
    have c: "get_message e (?tr @ fetches (take j' msgs)) (msgs ! j') list_fmt = Inl err"
      using Cons.prems(3) Suc by (simp add: fetches_def)
    note ih = Cons.IH [OF a b c]
    show ?thesis
      using d Suc by (simp add: Let_def ih handles_Suc fetches_def list_fmt_def [symmetric])
  qed
qed

lemma list_loop_success:
  "list_loop e i msgs emails s tr = (r, s', tr') \<Longrightarrow> \<not> is_error r \<Longrightarrow>
   index_map s' = handles i (length msgs) msgs (index_map s) \<and>
   (\<exists>es. r = Emails (emails @ es) (length emails + length msgs) \<and>
         map sum_id es = msgs \<and>
         map sum_number es = map (\<lambda>k. i + int k) [0..<length msgs])"
proof (induction msgs arbitrary: i emails s tr)
  case Nil
  then show ?case by (auto simp: handles_0)
next
  case (Cons mid msgs)
  show ?case
  proof (cases "get_message e tr mid (Metadata [''From'', ''Subject'', ''Date''])")
    case (Inl err)
    with Cons.prems show ?thesis by (auto simp: Let_def is_error_def)
  next
    case (Inr data)
    let ?item = "\<lparr>sum_number = i, sum_id = mid,
                   sum_from = header_get (msg_headers data) ''From'' ''Unknown'',
                   sum_subject = header_get (msg_headers data) ''Subject'' ''(No Subject)'',
                   sum_date = header_get (msg_headers data) ''Date'' '''',
                   sum_snippet = take 120 (msg_snippet data)\<rparr>"
    from Cons.prems(1) Inr
    have step: "list_loop e (i + 1) msgs (emails @ [?item])
                  (s\<lparr>index_map := (index_map s)(i \<mapsto> mid)\<rparr>)
                  (tr @ [GetCall mid (Metadata [''From'', ''Subject'', ''Date''])]) = (r, s', tr')"
      by (simp add: Let_def)
    note ih = Cons.IH [OF step Cons.prems(2)]
    from ih have im: "index_map s' = handles (i + 1) (length msgs) msgs ((index_map s)(i \<mapsto> mid))"
      by (simp add: fun_upd_def)
    from ih have "\<exists>es. r = Emails ((emails @ [?item]) @ es) (length (emails @ [?item]) + length msgs) \<and>
         map sum_id es = msgs \<and>
         map sum_number es = map (\<lambda>k. i + 1 + int k) [0..<length msgs]"
      by (rule conjunct2)
    then obtain es where r: "r = Emails ((emails @ [?item]) @ es) (length (emails @ [?item]) + length msgs)"
      and ids: "map sum_id es = msgs"
      and nums: "map sum_number es = map (\<lambda>k. i + 1 + int k) [0..<length msgs]"
      by (elim exE conjE)
    have "map sum_number (?item # es) = map (\<lambda>k. i + int k) [0..<length (mid # msgs)]"
      using nums by (simp add: upt_conv_Cons map_Suc_upt [symmetric] del: upt_Suc) 
    with im r ids show ?thesis
      by (intro conjI exI [of _ "?item # es"]) (simp_all add: handles_Suc)
  qed
qed



section \<open>The pending draft and its handle\<close>

lemma inv_list: "draft_inv s \<Longrightarrow> draft_inv (fst (snd (list_emails e m q s tr)))"
  using list_emails_keeps [of e m q s tr]
  by (cases "list_emails e m q s tr") (simp add: draft_inv_def)

lemma inv_read: "draft_inv s \<Longrightarrow> draft_inv (fst (snd (read_email e n g t s tr)))"
  by (simp add: read_email_def draft_inv_def Let_def
           split: option.splits sum.splits prod.splits)

lemma inv_regen: "draft_inv s \<Longrightarrow> draft_inv (fst (snd (regenerate_draft e n t s tr)))"
  by (simp add: regenerate_draft_def draft_inv_def Let_def
           split: option.splits sum.splits prod.splits)

lemma inv_send: "draft_inv s \<Longrightarrow> draft_inv (fst (snd (send_reply e n rb s tr)))"
  by (auto simp: send_reply_def draft_inv_def Let_def
           split: option.splits sum.splits if_splits)

text \<open>
  C10. \<open>last_draft\<close> is \<open>None\<close> exactly when \<open>last_number\<close> is \<open>None\<close>: the invariant holds of
  a new session and of a cleared one, and \<open>list_emails\<close>, \<open>read_email\<close>, \<open>regenerate_draft\<close>
  and \<open>send_reply\<close> each keep it, whatever the capabilities answer.
\<close>

theorem draft_inv_preserved:
  "draft_inv init \<and> draft_inv (clear s) \<and>
   (draft_inv s \<longrightarrow>
      draft_inv (fst (snd (list_emails e m q s tr))) \<and>
      draft_inv (fst (snd (read_email e n g t s tr))) \<and>
      draft_inv (fst (snd (regenerate_draft e n t s tr))) \<and>
      draft_inv (fst (snd (send_reply e n rb s tr))))"
proof -
  have "draft_inv init" by (simp add: draft_inv_def init_def)
  moreover have "draft_inv (clear s)" by (simp add: draft_inv_def clear_def)
  ultimately show ?thesis
    by (simp add: inv_list inv_read inv_regen inv_send)
qed

theorem draft_inv_preserved_witness:
  "draft_inv listed \<and>
   last_number (fst (snd (read_email stub_env 2 True ''friendly'' listed []))) = Some 2 \<and>
   draft_inv (fst (snd (read_email stub_env 2 True ''friendly'' listed [])))"
proof -
  have h: "draft_inv listed" by (simp add: draft_inv_def listed_def init_def)
  have n: "last_number (fst (snd (read_email stub_env 2 True ''friendly'' listed []))) = Some 2"
    by (simp add: read_email_def listed_def init_def stub_env_def sample_message_def
          Let_def split_beta)
  from h n draft_inv_preserved [of listed stub_env _ _ "[]" 2 True "''friendly''"]
  show ?thesis by simp
qed


section \<open>Listing\<close>

text \<open>
  C1 as stated fails: the map is cleared as soon as the listing request has answered, so a
  fault of a later fetch leaves a partial map. Here the second fetch faults; handle 2, which
  was mapped before the call, is unmapped after it, and handle 1 names a new message.
\<close>

theorem list_emails_fault_counterexample:
  "get_message faulty_env
     [ListCall ''is:unread'' 10, GetCall ''n1'' list_fmt] ''n2'' list_fmt = Inl ''HttpError 500'' \<and>
   fst (list_emails faulty_env 10 ''is:unread'' listed []) = Error ''HttpError 500'' \<and>
   index_map listed 2 = Some ''b'' \<and>
   index_map (fst (snd (list_emails faulty_env 10 ''is:unread'' listed []))) 2 = None \<and>
   index_map (fst (snd (list_emails faulty_env 10 ''is:unread'' listed []))) 1 = Some ''n1''"
  by (simp add: list_emails_def faulty_env_def stub_env_def listed_def init_def Let_def list_fmt_def)

text \<open>
  C1, as amended. A fault of the Mail Capability always comes back as \<open>{error: message}\<close>.
  When the listing request itself faults, the session is left as it was. When the fetch of the
  message at position \<open>j\<close> (from 0) faults after the earlier fetches went through, the old
  entries are gone and \<open>index_map\<close> holds exactly the handles \<open>1..j\<close> of the new listing.
\<close>

theorem list_emails_fault:
  "(list_messages e tr q m = Inl err \<longrightarrow>
      list_emails e m q s tr = (Error err, s, tr @ [ListCall q m])) \<and>
   (list_messages e tr q m = Inr ids \<and> j < length ids \<and>
    (\<forall>k<j. \<exists>d. get_message e (tr @ ListCall q m # fetches (take k ids)) (ids ! k) list_fmt
                   = Inr d) \<and>
    get_message e (tr @ ListCall q m # fetches (take j ids)) (ids ! j) list_fmt = Inl err \<longrightarrow>
      list_emails e m q s tr =
        (Error err, s\<lparr>index_map := handles 1 j ids Map.empty\<rparr>,
         tr @ ListCall q m # fetches (take (Suc j) ids)))"
proof (intro conjI impI)
  assume "list_messages e tr q m = Inl err"
  then show "list_emails e m q s tr = (Error err, s, tr @ [ListCall q m])"
    by (simp add: list_emails_def)
next
  assume a: "list_messages e tr q m = Inr ids \<and> j < length ids \<and>
    (\<forall>k<j. \<exists>d. get_message e (tr @ ListCall q m # fetches (take k ids)) (ids ! k) list_fmt
                   = Inr d) \<and>
    get_message e (tr @ ListCall q m # fetches (take j ids)) (ids ! j) list_fmt = Inl err"
  then have ne: "ids \<noteq> []" by auto
  from a have
    "list_loop e 1 ids [] (s\<lparr>index_map := Map.empty\<rparr>) (tr @ [ListCall q m]) =
       (Error err,
        (s\<lparr>index_map := Map.empty\<rparr>)
          \<lparr>index_map := handles 1 j ids (index_map (s\<lparr>index_map := Map.empty\<rparr>))\<rparr>,
        (tr @ [ListCall q m]) @ fetches (take (Suc j) ids))"
    by (intro list_loop_fault) simp_all
  with a ne show "list_emails e m q s tr =
        (Error err, s\<lparr>index_map := handles 1 j ids Map.empty\<rparr>,
         tr @ ListCall q m # fetches (take (Suc j) ids))"
    by (simp add: list_emails_def)
qed

theorem list_emails_fault_witness:
  "list_messages down_env [] ''is:unread'' 10 = Inl ''HttpError 503'' \<and>
   list_emails down_env 10 ''is:unread'' listed [] =
     (Error ''HttpError 503'', listed, [ListCall ''is:unread'' 10]) \<and>
   list_messages faulty_env [] ''is:unread'' 10 = Inr [''n1'', ''n2''] \<and>
   list_emails faulty_env 10 ''is:unread'' listed [] =
     (Error ''HttpError 500'', listed\<lparr>index_map := handles 1 1 [''n1'', ''n2''] Map.empty\<rparr>,
      [ListCall ''is:unread'' 10, GetCall ''n1'' list_fmt, GetCall ''n2'' list_fmt])"
proof -
  have 1: "list_messages down_env [] ''is:unread'' 10 = Inl ''HttpError 503''"
    by (simp add: down_env_def)
  have 2: "list_messages faulty_env [] ''is:unread'' 10 = Inr [''n1'', ''n2''] \<and>
           (1::nat) < length [''n1'', ''n2''] \<and>
           (\<forall>k<1. \<exists>d. get_message faulty_env
               ([] @ ListCall ''is:unread'' 10 # fetches (take k [''n1'', ''n2'']))
               ([''n1'', ''n2''] ! k) list_fmt = Inr d) \<and>
           get_message faulty_env
               ([] @ ListCall ''is:unread'' 10 # fetches (take 1 [''n1'', ''n2'']))
               ([''n1'', ''n2''] ! 1) list_fmt = Inl ''HttpError 500''"
    by (simp add: faulty_env_def)
  from 1 list_emails_fault [of down_env "[]" "''is:unread''" 10 "''HttpError 503''" listed]
  have 3: "list_emails down_env 10 ''is:unread'' listed [] =
     (Error ''HttpError 503'', listed, [ListCall ''is:unread'' 10])"
    by simp
  from 2 list_emails_fault [of faulty_env "[]" "''is:unread''" 10 "''HttpError 500''" listed
      "[''n1'', ''n2'']" 1]
  have 4: "list_emails faulty_env 10 ''is:unread'' listed [] =
     (Error ''HttpError 500'', listed\<lparr>index_map := handles 1 1 [''n1'', ''n2''] Map.empty\<rparr>,
      [ListCall ''is:unread'' 10, GetCall ''n1'' list_fmt, GetCall ''n2'' list_fmt])"
    by (simp add: fetches_def)
  from 1 2 3 4 show ?thesis by simp
qed

lemma dom_handles: "dom (handles 1 n ids Map.empty) = {1..int n}"
  by (auto simp: handles_def dom_def split: if_splits)

lemma read_email_miss:
  "index_map s n = None \<Longrightarrow> read_email e n g t s tr = (Error (invalid_number n), s, tr)"
  by (simp add: read_email_def)

lemma send_reply_miss:
  "index_map s n = None \<Longrightarrow> send_reply e n rb s tr = (Error (invalid_number n), s, tr)"
  by (simp add: send_reply_def)

lemma read_email_index: "index_map (fst (snd (read_email e n g t s tr))) = index_map s"
  by (simp add: read_email_def Let_def split: option.splits sum.splits prod.splits)

lemma send_reply_index: "index_map (fst (snd (send_reply e n rb s tr))) = index_map s"
  by (simp add: send_reply_def Let_def split: option.splits sum.splits prod.splits)

lemma regenerate_draft_index: "index_map (fst (snd (regenerate_draft e n t s tr))) = index_map s"
  by (simp add: regenerate_draft_def Let_def split: option.splits sum.splits prod.splits)

text \<open>
  C2. After a listing that does not end in an error, with \<open>K\<close> messages returned by the
  provider, \<open>index_map\<close> maps exactly the handles \<open>1..K\<close>, handle \<open>k + 1\<close> to the
  \<open>k\<close>-th identifier returned; \<open>read_email\<close> and \<open>send_reply\<close> with a handle outside
  \<open>1..K\<close>, in any session holding this map, return the lookup error and leave session and
  call log as they were; and none of \<open>read_email\<close>, \<open>send_reply\<close>,
  \<open>regenerate_draft\<close> changes the map.
\<close>

theorem list_emails_handles:
  assumes run: "list_emails e m q s tr = (r, s', tr')" and ok: "\<not> is_error r"
  shows "\<exists>ids es.
     list_messages e tr q m = Inr ids \<and>
     r = (if ids = [] then NoEmails else Emails es (length ids)) \<and>
     (ids \<noteq> [] \<longrightarrow> map sum_id es = ids \<and>
                   map sum_number es = map (\<lambda>k. 1 + int k) [0..<length ids]) \<and>
     dom (index_map s') = {1..int (length ids)} \<and>
     (\<forall>k<length ids. index_map s' (1 + int k) = Some (ids ! k)) \<and>
     (\<forall>n s2 tr2 g t rb.
        index_map s2 = index_map s' \<and> n \<notin> {1..int (length ids)} \<longrightarrow>
          read_email e n g t s2 tr2 = (Error (invalid_number n), s2, tr2) \<and>
          send_reply e n rb s2 tr2 = (Error (invalid_number n), s2, tr2)) \<and>
     (\<forall>n s2 tr2 g t rb.
        index_map (fst (snd (read_email e n g t s2 tr2))) = index_map s2 \<and>
        index_map (fst (snd (send_reply e n rb s2 tr2))) = index_map s2 \<and>
        index_map (fst (snd (regenerate_draft e n t s2 tr2))) = index_map s2)"
proof -
  from run ok obtain ids where l: "list_messages e tr q m = Inr ids"
    by (cases "list_messages e tr q m") (auto simp: list_emails_def is_error_def)
  have "\<exists>es. r = (if ids = [] then NoEmails else Emails es (length ids)) \<and>
     (ids \<noteq> [] \<longrightarrow> map sum_id es = ids \<and>
                   map sum_number es = map (\<lambda>k. 1 + int k) [0..<length ids]) \<and>
     index_map s' = handles 1 (length ids) ids Map.empty"
  proof (cases "ids = []")
    case True
    with run l show ?thesis by (auto simp: list_emails_def handles_0)
  next
    case False
    with run l have
      "list_loop e 1 ids [] (s\<lparr>index_map := Map.empty\<rparr>) (tr @ [ListCall q m]) = (r, s', tr')"
      by (simp add: list_emails_def)
    from list_loop_success [OF this ok] False show ?thesis by auto
  qed
  then obtain es where r: "r = (if ids = [] then NoEmails else Emails es (length ids))"
    and es: "ids \<noteq> [] \<longrightarrow> map sum_id es = ids \<and>
                   map sum_number es = map (\<lambda>k. 1 + int k) [0..<length ids]"
    and im: "index_map s' = handles 1 (length ids) ids Map.empty"
    by (elim exE conjE)
  have d: "dom (index_map s') = {1..int (length ids)}"
    by (simp add: im dom_handles)
  have v: "\<forall>k<length ids. index_map s' (1 + int k) = Some (ids ! k)"
    by (simp add: im handles_def)
  have miss: "\<forall>n s2 tr2 g t rb.
        index_map s2 = index_map s' \<and> n \<notin> {1..int (length ids)} \<longrightarrow>
          read_email e n g t s2 tr2 = (Error (invalid_number n), s2, tr2) \<and>
          send_reply e n rb s2 tr2 = (Error (invalid_number n), s2, tr2)"
  proof (intro allI impI)
    fix n g t rb and s2 :: mailbox_session and tr2 :: "call list"
    assume a: "index_map s2 = index_map s' \<and> n \<notin> {1..int (length ids)}"
    with d have "index_map s2 n = None" by (metis domIff)
    then show "read_email e n g t s2 tr2 = (Error (invalid_number n), s2, tr2) \<and>
          send_reply e n rb s2 tr2 = (Error (invalid_number n), s2, tr2)"
      by (simp add: read_email_miss send_reply_miss)
  qed
  from l r es d v miss show ?thesis
    by (intro exI [of _ ids] exI [of _ es] conjI)
       (simp_all add: read_email_index send_reply_index regenerate_draft_index)
qed

theorem list_emails_handles_witness:
  "\<not> is_error (fst (list_emails stub_env 5 ''is:unread'' init [])) \<and>
   dom (index_map (fst (snd (list_emails stub_env 5 ''is:unread'' init [])))) = {1..3} \<and>
   index_map (fst (snd (list_emails stub_env 5 ''is:unread'' init []))) 2 = Some ''b'' \<and>
   read_email stub_env 4 True ''normal'' (fst (snd (list_emails stub_env 5 ''is:unread'' init []))) []
     = (Error (invalid_number 4), fst (snd (list_emails stub_env 5 ''is:unread'' init [])), [])"
proof -
  let ?X = "list_emails stub_env 5 ''is:unread'' init []"
  have ok: "\<not> is_error (fst ?X)"
    by (simp add: list_emails_def stub_env_def is_error_def Let_def)
  have run: "?X = (fst ?X, fst (snd ?X), snd (snd ?X))" by simp
  have l: "list_messages stub_env [] ''is:unread'' 5 = Inr [''a'', ''b'', ''c'']"
    by (simp add: stub_env_def)
  from list_emails_handles [OF run ok] obtain ids where
    i: "list_messages stub_env [] ''is:unread'' 5 = Inr ids" and
    d: "dom (index_map (fst (snd ?X))) = {1..int (length ids)}" and
    v: "\<forall>k<length ids. index_map (fst (snd ?X)) (1 + int k) = Some (ids ! k)" and
    m: "\<forall>n s2 tr2 g t rb.
        index_map s2 = index_map (fst (snd ?X)) \<and> n \<notin> {1..int (length ids)} \<longrightarrow>
          read_email stub_env n g t s2 tr2 = (Error (invalid_number n), s2, tr2) \<and>
          send_reply stub_env n rb s2 tr2 = (Error (invalid_number n), s2, tr2)"
    by blast
  from i l have ids: "ids = [''a'', ''b'', ''c'']" by simp
  from v [rule_format, of 1] ids have v2: "index_map (fst (snd ?X)) 2 = Some ''b''"
    by simp
  have "(4::int) \<notin> {1..int (length ids)}" using ids by simp
  with m [rule_format, where n = 4 and ?s2.0 = "fst (snd ?X)" and ?tr2.0 = "[]"
            and g = True and t = "''normal''"]
  have r4: "read_email stub_env 4 True ''normal'' (fst (snd ?X)) [] =
      (Error (invalid_number 4), fst (snd ?X), [])"
    by blast
  from d ids have d3: "dom (index_map (fst (snd ?X))) = {1..3}" by simp
  show ?thesis by (rule conjI [OF ok conjI [OF d3 conjI [OF v2 r4]]])
qed


section \<open>Sending\<close>

text \<open>
  C3 as stated fails where the handle is present with an empty message identifier: the lookup
  guard \<open>if not email_id\<close> answers with the invalid-number error, not with the no-draft error.
\<close>

theorem send_reply_no_draft_counterexample:
  "index_map empty_id 1 = Some '''' \<and> last_draft empty_id = None \<and>
   send_reply stub_env 1 None empty_id [] = (Error (invalid_number 1), empty_id, []) \<and>
   invalid_number 1 \<noteq> no_draft"
  by (simp add: empty_id_def init_def send_reply_def invalid_number_def no_draft_def)

text \<open>
  C3, as amended. For a handle that \<open>index_map\<close> maps to a non-empty message identifier and
  with \<open>reply_body\<close> omitted: when there is no pending draft or its handle is another one, the
  call returns the no-draft error and leaves session and call log as they were; and a send
  request reaches the Mail Capability only if a pending draft exists and its handle is this one.
\<close>

theorem send_reply_no_draft:
  assumes "index_map s n = Some email_id" and "email_id \<noteq> []"
  shows "(last_draft s = None \<or> last_number s \<noteq> Some n \<longrightarrow>
            send_reply e n None s tr = (Error no_draft, s, tr)) \<and>
         (filter is_send_call (snd (snd (send_reply e n None s tr))) \<noteq> filter is_send_call tr
            \<longrightarrow> last_draft s \<noteq> None \<and> last_number s = Some n)"
  using assms
  by (auto simp: send_reply_def Let_def split: option.splits sum.splits)

theorem send_reply_no_draft_witness:
  "index_map drafted 3 = Some ''c'' \<and> ''c'' \<noteq> [] \<and> last_number drafted \<noteq> Some 3 \<and>
   send_reply stub_env 3 None drafted [] = (Error no_draft, drafted, []) \<and>
   index_map drafted 2 = Some ''b'' \<and> last_number drafted = Some 2 \<and>
   filter is_send_call (snd (snd (send_reply stub_env 2 None drafted []))) \<noteq> filter is_send_call []"
proof -
  have a: "index_map drafted 3 = Some ''c''" "''c'' \<noteq> []" "last_number drafted \<noteq> Some 3"
    "index_map drafted 2 = Some ''b''" "last_number drafted = Some 2"
    by (simp_all add: drafted_def listed_def init_def)
  have b: "filter is_send_call (snd (snd (send_reply stub_env 2 None drafted []))) \<noteq> filter is_send_call []"
    by (simp add: send_reply_def drafted_def listed_def init_def stub_env_def Let_def
          create_reply_message_def sample_message_def)
  have c: "send_reply stub_env 3 None drafted [] = (Error no_draft, drafted, [])"
    by (rule send_reply_no_draft [OF a(1) a(2), THEN conjunct1, THEN mp]) (simp add: a(3))
  show ?thesis
    by (rule conjI [OF a(1) conjI [OF a(2) conjI [OF a(3) conjI [OF c conjI [OF a(4)
          conjI [OF a(5) b]]]]]])
qed

text \<open>
  C4. After a \<open>send_reply\<close> that succeeds: if the pending draft belonged to this handle, draft
  and handle are cleared, and \<open>send_reply\<close> for the same handle with no body then returns the
  no-draft error; otherwise the session is exactly as before, the pending draft included.
\<close>

theorem send_reply_clears_draft:
  assumes "send_reply e n rb s tr = (Sent to_addr subject, s', tr')"
  shows "(last_number s = Some n \<longrightarrow>
            last_draft s' = None \<and> last_number s' = None \<and>
            (\<forall>e2 tr2. send_reply e2 n None s' tr2 = (Error no_draft, s', tr2))) \<and>
         (last_number s \<noteq> Some n \<longrightarrow> s' = s)"
  using assms
  by (auto simp: send_reply_def Let_def split: option.splits sum.splits if_splits)

theorem send_reply_clears_draft_witness:
  "send_reply stub_env 2 None drafted [] =
     (Sent ''ann@example.com'' ''Re: Lunch b'', listed,
      [GetCall ''b'' (Metadata [''From'', ''Subject'']),
       SendCall \<lparr>raw = ''Friday works for me.\<newline>\<newline>Regards,\<newline>Ayaan'', threadId = Some ''t1''\<rparr>]) \<and>
   last_number drafted = Some 2 \<and>
   send_reply stub_env 2 None listed [] = (Error no_draft, listed, []) \<and>
   fst (send_reply stub_env 3 (Some ''On my way.'') drafted []) = Sent ''ann@example.com'' ''Re: Lunch c'' \<and>
   last_number drafted \<noteq> Some 3 \<and>
   fst (snd (send_reply stub_env 3 (Some ''On my way.'') drafted [])) = drafted"
proof -
  let ?tr = "[GetCall ''b'' (Metadata [''From'', ''Subject'']),
       SendCall \<lparr>raw = ''Friday works for me.\<newline>\<newline>Regards,\<newline>Ayaan'', threadId = Some ''t1''\<rparr>]"
  have run: "send_reply stub_env 2 None drafted [] =
     (Sent ''ann@example.com'' ''Re: Lunch b'', listed, ?tr)"
    by (simp add: send_reply_def drafted_def listed_def init_def stub_env_def Let_def
          create_reply_message_def sample_message_def header_get_def parse_email_address_def
          strip_def lstrip_def rstrip_def is_space_def re_subject_def startswith_def lower_def
          lower_chr_def)
  have n: "last_number drafted = Some 2" "last_number drafted \<noteq> Some 3"
    by (simp_all add: drafted_def)
  let ?Y = "send_reply stub_env 3 (Some ''On my way.'') drafted []"
  have r3: "fst ?Y = Sent ''ann@example.com'' ''Re: Lunch c''"
    by (simp add: send_reply_def drafted_def listed_def init_def stub_env_def Let_def
          create_reply_message_def sample_message_def header_get_def parse_email_address_def
          strip_def lstrip_def rstrip_def is_space_def re_subject_def startswith_def lower_def
          lower_chr_def)
  then have run3: "?Y = (Sent ''ann@example.com'' ''Re: Lunch c'', fst (snd ?Y), snd (snd ?Y))"
    by (metis prod.collapse)
  from send_reply_clears_draft [OF run] n
  have 1: "send_reply stub_env 2 None listed [] = (Error no_draft, listed, [])" by simp
  from send_reply_clears_draft [OF run3] n
  have 2: "fst (snd ?Y) = drafted" by simp
  from run n 1 r3 2 show ?thesis by simp
qed



section \<open>Body extraction\<close>

lemma scan_skip:
  "\<forall>q\<in>set pre. skipped dec q \<Longrightarrow>
   scan_parts dec 3000 (pre @ ps) = scan_parts dec 3000 ps"
  by (induction pre) (auto simp: skipped_def plain_with_data_def)

lemma no_text_empty:
  "no_text_below p \<Longrightarrow> body_data p = [] \<Longrightarrow> extract_email_body dec m p = Inr []"
  "list_all (\<lambda>p. \<not> plain_with_data p \<and>
                    \<not> (startswith (mimeType p) ''multipart/'' \<and> body_data p \<noteq> []) \<and>
                    no_text_below p) ps \<Longrightarrow> scan_parts dec m ps = Inr []"
proof (induction dec m p and dec m ps rule: extract_email_body_scan_parts.induct)
  case (1 dec max_length mt d ps)
  then show ?case by simp
next
  case (2 dec max_length)
  then show ?case by simp
next
  case (3 dec max_length p ps)
  then show ?case by (auto simp: plain_with_data_def)
qed

text \<open>
  C7 as stated fails: the recursion into a multipart part starts with that part's own inline
  body, so a container that carries data yields it although the tree has no text/plain part.
\<close>

theorem extract_email_body_counterexample:
  "\<not> has_plain (Part ''multipart/mixed'' [] [Part ''multipart/alternative'' ''aGk='' []]) \<and>
   extract_email_body b64_table 3000
     (Part ''multipart/mixed'' [] [Part ''multipart/alternative'' ''aGk='' []]) = Inr ''hi''"
  by (simp add: b64_table_def startswith_def py_take_def)

text \<open>
  C7, as amended, for every payload tree and every decoder. A payload that carries inline
  data yields its decoded body cut to 3000 characters. Otherwise the parts are scanned in
  order: a part is passed over when it is not a text/plain part carrying data and, if it is a
  multipart part, its own walk (inline body first, then its parts) yields the empty string;
  the first part not passed over ends the scan, with its decoded body cut to 3000 characters
  if it is a text/plain part carrying data, and with the non-empty result of its own walk if it
  is a multipart part. The result is the empty string, not an error, when below the payload no
  text/plain part carries data and no multipart part carries inline data.
\<close>

theorem extract_email_body_walk:
  "(d \<noteq> [] \<and> dec d = Inr b \<longrightarrow>
      extract_email_body dec 3000 (Part mt d ps) = Inr (take 3000 b)) \<and>
   ((\<forall>q\<in>set pre. skipped dec q) \<and> plain_with_data p \<and> dec (body_data p) = Inr b \<longrightarrow>
      extract_email_body dec 3000 (Part mt [] (pre @ p # post)) = Inr (take 3000 b)) \<and>
   ((\<forall>q\<in>set pre. skipped dec q) \<and> \<not> plain_with_data p \<and>
    startswith (mimeType p) ''multipart/'' \<and> extract_email_body dec 3000 p = Inr b \<and> b \<noteq> [] \<longrightarrow>
      extract_email_body dec 3000 (Part mt [] (pre @ p # post)) = Inr b) \<and>
   (no_text_below (Part mt [] ps) \<longrightarrow> extract_email_body dec 3000 (Part mt [] ps) = Inr [])"
proof (intro conjI impI)
  assume "d \<noteq> [] \<and> dec d = Inr b"
  then show "extract_email_body dec 3000 (Part mt d ps) = Inr (take 3000 b)"
    by (simp add: py_take_def)
next
  assume a: "(\<forall>q\<in>set pre. skipped dec q) \<and> plain_with_data p \<and> dec (body_data p) = Inr b"
  then have "scan_parts dec 3000 (pre @ p # post) = scan_parts dec 3000 (p # post)"
    by (simp add: scan_skip)
  with a show "extract_email_body dec 3000 (Part mt [] (pre @ p # post)) = Inr (take 3000 b)"
    by (simp add: plain_with_data_def py_take_def)
next
  assume a: "(\<forall>q\<in>set pre. skipped dec q) \<and> \<not> plain_with_data p \<and>
    startswith (mimeType p) ''multipart/'' \<and> extract_email_body dec 3000 p = Inr b \<and> b \<noteq> []"
  then have "scan_parts dec 3000 (pre @ p # post) = scan_parts dec 3000 (p # post)"
    by (simp add: scan_skip)
  with a show "extract_email_body dec 3000 (Part mt [] (pre @ p # post)) = Inr b"
    by (auto simp: plain_with_data_def)
next
  assume "no_text_below (Part mt [] ps)"
  then show "extract_email_body dec 3000 (Part mt [] ps) = Inr []"
    by (rule no_text_empty(1)) simp
qed


theorem extract_email_body_walk_witness:
  "extract_email_body b64_table 3000 (Part ''text/html'' ''aGk='' []) = Inr ''hi'' \<and>
   extract_email_body b64_table 3000
     (Part ''multipart/mixed'' []
        [Part ''text/html'' ''aGk='' [], Part ''text/plain'' ''Ynll'' [],
         Part ''text/plain'' ''aGk='' []]) = Inr ''bye'' \<and>
   extract_email_body b64_table 3000
     (Part ''multipart/mixed'' []
        [Part ''text/plain'' [] [],
         Part ''multipart/alternative'' [] [Part ''text/plain'' ''aGk='' []],
         Part ''text/plain'' ''Ynll'' []]) = Inr ''hi'' \<and>
   extract_email_body b64_table 3000
     (Part ''multipart/mixed'' []
        [Part ''text/html'' ''aGk='' [], Part ''multipart/related'' [] [Part ''image/png'' ''Ynll'' []]])
     = Inr []"
proof -
  have h1: "''aGk='' \<noteq> [] \<and> b64_table ''aGk='' = Inr ''hi''"
    by (simp add: b64_table_def)
  have h2: "(\<forall>q\<in>set [Part ''text/html'' ''aGk='' []]. skipped b64_table q) \<and>
            plain_with_data (Part ''text/plain'' ''Ynll'' []) \<and>
            b64_table (body_data (Part ''text/plain'' ''Ynll'' [])) = Inr ''bye''"
    by (simp add: skipped_def plain_with_data_def b64_table_def startswith_def)
  have h3: "(\<forall>q\<in>set [Part ''text/plain'' [] []]. skipped b64_table q) \<and>
            \<not> plain_with_data (Part ''multipart/alternative'' [] [Part ''text/plain'' ''aGk='' []]) \<and>
            startswith (mimeType (Part ''multipart/alternative'' [] [Part ''text/plain'' ''aGk='' []]))
              ''multipart/'' \<and>
            extract_email_body b64_table 3000
              (Part ''multipart/alternative'' [] [Part ''text/plain'' ''aGk='' []]) = Inr ''hi'' \<and>
            ''hi'' \<noteq> []"
    by (simp add: skipped_def plain_with_data_def b64_table_def startswith_def py_take_def)
  have h4: "no_text_below (Part ''multipart/mixed'' []
        [Part ''text/html'' ''aGk='' [], Part ''multipart/related'' [] [Part ''image/png'' ''Ynll'' []]])"
    by (simp add: plain_with_data_def startswith_def)
  note w1 = extract_email_body_walk [where dec = b64_table and d = "''aGk=''" and b = "''hi''"
      and mt = "''text/html''" and ps = "[]", THEN conjunct1, THEN mp, OF h1]
  note w2 = extract_email_body_walk [where dec = b64_table and b = "''bye''"
      and pre = "[Part ''text/html'' ''aGk='' []]" and p = "Part ''text/plain'' ''Ynll'' []"
      and post = "[Part ''text/plain'' ''aGk='' []]" and mt = "''multipart/mixed''",
      THEN conjunct2, THEN conjunct1, THEN mp, OF h2]
  note w3 = extract_email_body_walk [where dec = b64_table and b = "''hi''"
      and pre = "[Part ''text/plain'' [] []]"
      and p = "Part ''multipart/alternative'' [] [Part ''text/plain'' ''aGk='' []]"
      and post = "[Part ''text/plain'' ''Ynll'' []]" and mt = "''multipart/mixed''",
      THEN conjunct2, THEN conjunct2, THEN conjunct1, THEN mp, OF h3]
  note w4 = extract_email_body_walk [where dec = b64_table and mt = "''multipart/mixed''"
      and ps = "[Part ''text/html'' ''aGk='' [],
                 Part ''multipart/related'' [] [Part ''image/png'' ''Ynll'' []]]",
      THEN conjunct2, THEN conjunct2, THEN conjunct2, THEN mp, OF h4]
  from w1 have c1: "extract_email_body b64_table 3000 (Part ''text/html'' ''aGk='' []) = Inr ''hi''"
    by simp
  from w2 have c2: "extract_email_body b64_table 3000
     (Part ''multipart/mixed'' []
        [Part ''text/html'' ''aGk='' [], Part ''text/plain'' ''Ynll'' [],
         Part ''text/plain'' ''aGk='' []]) = Inr ''bye''"
    by simp
  from w3 have c3: "extract_email_body b64_table 3000
     (Part ''multipart/mixed'' []
        [Part ''text/plain'' [] [],
         Part ''multipart/alternative'' [] [Part ''text/plain'' ''aGk='' []],
         Part ''text/plain'' ''Ynll'' []]) = Inr ''hi''"
    by simp
  show ?thesis by (rule conjI [OF c1 conjI [OF c2 conjI [OF c3 w4]]])
qed



section \<open>Stripping and the closing patterns\<close>

lemma lower_chr_nl: "lower_chr c = nl \<longleftrightarrow> c = nl"
proof (cases "65 \<le> (of_char c :: nat) \<and> (of_char c :: nat) \<le> 90")
  case True
  then have l: "(of_char (lower_chr c) :: nat) = of_char c + 32"
    by (simp add: lower_chr_def Let_def)
  have a: "lower_chr c \<noteq> nl"
  proof
    assume "lower_chr c = nl"
    with l True show False by simp
  qed
  have "c \<noteq> nl"
  proof
    assume "c = nl"
    with True show False by simp
  qed
  with a show ?thesis by simp
next
  case False
  then show ?thesis by (auto simp: lower_chr_def Let_def)
qed

lemma lower_chr_of_nl: "lower_chr nl = nl"
  by (simp add: lower_chr_def)

lemma nl_pattern_miss:
  "c \<noteq> nl \<Longrightarrow> rx_match (Seq (Atom (Lit nl)) r) (c # cs) = []"
  by (simp add: lower_chr_nl lower_chr_of_nl)

lemma re_sub_no_nl:
  "nl \<notin> set s \<Longrightarrow> re_sub (Seq (Atom (Lit nl)) r) s = s"
  by (induction s) (auto simp: lower_chr_nl lower_chr_of_nl)

lemma re_sub_prefix:
  "nl \<notin> set u \<Longrightarrow>
   re_sub (Seq (Atom (Lit nl)) r) (u @ v) = u @ re_sub (Seq (Atom (Lit nl)) r) v"
  by (induction u) (auto simp: lower_chr_nl lower_chr_of_nl)

lemma hd_lstrip: "lstrip s \<noteq> [] \<Longrightarrow> \<not> is_space (hd (lstrip s))"
  unfolding lstrip_def by (rule hd_dropWhile)

lemma last_rstrip: "rstrip s \<noteq> [] \<Longrightarrow> \<not> is_space (last (rstrip s))"
proof -
  assume a: "rstrip s \<noteq> []"
  then have "dropWhile is_space (rev s) \<noteq> []" by (simp add: rstrip_def)
  then have "\<not> is_space (hd (dropWhile is_space (rev s)))" by (rule hd_dropWhile)
  then show ?thesis by (simp add: rstrip_def last_rev)
qed

lemma rstrip_prefix: "\<exists>zs. s = rstrip s @ zs"
proof -
  have "rev (dropWhile is_space (rev s)) @ rev (takeWhile is_space (rev s)) =
        rev (takeWhile is_space (rev s) @ dropWhile is_space (rev s))"
    by (simp only: rev_append)
  also have "\<dots> = rev (rev s)" by (simp only: takeWhile_dropWhile_id)
  also have "\<dots> = s" by simp
  finally have "s = rstrip s @ rev (takeWhile is_space (rev s))"
    by (simp only: rstrip_def)
  then show ?thesis ..
qed

lemma lstrip_id: "s = [] \<or> \<not> is_space (hd s) \<Longrightarrow> lstrip s = s"
  by (cases s) (auto simp: lstrip_def)

lemma rstrip_id: "s = [] \<or> \<not> is_space (last s) \<Longrightarrow> rstrip s = s"
proof (cases "s = []")
  case True
  then show ?thesis by (simp add: rstrip_def)
next
  case False
  assume "s = [] \<or> \<not> is_space (last s)"
  with False have "\<not> is_space (hd (rev s))" by (simp add: hd_rev)
  moreover from False have "rev s \<noteq> []" by simp
  ultimately have "dropWhile is_space (rev s) = rev s" by (cases "rev s") auto
  then show ?thesis by (simp add: rstrip_def)
qed

lemma hd_strip: "strip s \<noteq> [] \<Longrightarrow> \<not> is_space (hd (strip s))"
proof -
  assume a: "strip s \<noteq> []"
  obtain zs where z: "lstrip s = strip s @ zs"
    using rstrip_prefix [of "lstrip s"] by (auto simp: strip_def)
  with a have "hd (strip s) = hd (lstrip s)" by (metis hd_append2)
  moreover from a z have "lstrip s \<noteq> []" by auto
  ultimately show ?thesis using hd_lstrip by simp
qed

lemma last_strip: "strip s \<noteq> [] \<Longrightarrow> \<not> is_space (last (strip s))"
  unfolding strip_def by (rule last_rstrip)

lemma strip_id: "s = [] \<or> (\<not> is_space (hd s) \<and> \<not> is_space (last s)) \<Longrightarrow> strip s = s"
  by (auto simp: strip_def lstrip_id rstrip_id)

lemma strip_strip: "strip (strip s) = strip s"
  using hd_strip [of s] last_strip [of s] by (intro strip_id) auto

lemma set_strip: "set (strip s) \<subseteq> set s"
proof -
  have "set (rstrip (lstrip s)) \<subseteq> set (lstrip s)"
    using set_dropWhileD [of _ is_space "rev (lstrip s)"] by (auto simp: rstrip_def)
  moreover have "set (lstrip s) \<subseteq> set s"
    using set_dropWhileD [of _ is_space s] by (auto simp: lstrip_def)
  ultimately show ?thesis by (simp add: strip_def)
qed

lemma seqs_Cons: "seqs (r # rs) = Seq r (seqs rs)"
  by (simp add: seqs_def)

lemma closing_patterns_nl:
  "pattern \<in> set closing_patterns \<Longrightarrow> \<exists>r. pattern = Seq (Atom (Lit nl)) r"
  by (auto simp: closing_patterns_def closing_pattern1_def closing_pattern2_def
        closing_pattern3_def seqs_Cons)

lemma clean_step_id:
  assumes "pattern \<in> set closing_patterns" and "nl \<notin> set s"
  shows "strip (re_sub pattern (strip s)) = strip s"
proof -
  from assms(1) obtain r where r: "pattern = Seq (Atom (Lit nl)) r"
    using closing_patterns_nl by blast
  from assms(2) have "nl \<notin> set (strip s)" using set_strip [of s] by auto
  then have "re_sub pattern (strip s) = strip s" unfolding r by (rule re_sub_no_nl)
  then show ?thesis by (simp add: strip_strip)
qed

lemma clean_up_three:
  "clean_up d =
     strip (re_sub (closing_pattern3)
       (strip (re_sub (closing_pattern2)
          (strip (re_sub (closing_pattern1) (strip d))))))"
  by (simp add: clean_up_def closing_patterns_def)

lemma closing_patterns_mem:
  "closing_pattern1 \<in> set closing_patterns"
  "closing_pattern2 \<in> set closing_patterns"
  "closing_pattern3 \<in> set closing_patterns"
  by (simp_all add: closing_patterns_def)

lemma clean_up_no_nl: "nl \<notin> set s \<Longrightarrow> clean_up s = strip s"
  by (simp add: clean_up_three clean_step_id closing_patterns_mem)

lemma strip_fallback: "strip (fallback subject) = fallback subject"
  by (rule strip_id) (simp add: fallback_def is_space_def)

lemma clean_up_fallback:
  "nl \<notin> set subject \<Longrightarrow> clean_up (fallback subject) = fallback subject"
proof -
  assume "nl \<notin> set subject"
  then have "nl \<notin> set (fallback subject)" by (simp add: fallback_def)
  then show ?thesis by (simp add: clean_up_no_nl strip_fallback)
qed

subsection \<open>Ways of matching\<close>

lemma star_match_self: "s \<in> set (star_match a s)"
  by (cases s) simp_all

lemma star_match_all: "list_all (atom_ok a) ws \<Longrightarrow> y \<in> set (star_match a (ws @ y))"
  by (induction ws) (simp_all add: star_match_self)

lemma seq_mem:
  "m1 \<in> set (rx_match a x) \<Longrightarrow> m2 \<in> set (rx_match b m1) \<Longrightarrow> m2 \<in> set (rx_match (Seq a b) x)"
  by auto

lemma opt_skip: "x \<in> set (rx_match (Opt r) x)"
  by simp

lemma opt_take: "m \<in> set (rx_match r x) \<Longrightarrow> m \<in> set (rx_match (Opt r) x)"
  by simp

lemma lit_mem:
  "map lower_chr q = map lower_chr p \<Longrightarrow> y \<in> set (rx_match (lit p) (q @ y))"
proof (induction p arbitrary: q)
  case Nil
  then show ?case by (simp add: lit_def)
next
  case (Cons c p)
  then obtain d q' where q: "q = d # q'" and d: "lower_chr d = lower_chr c"
    and q': "map lower_chr q' = map lower_chr p"
    by (cases q) auto
  from Cons.IH [OF q'] have "y \<in> set (rx_match (lit p) (q' @ y))" .
  with q d show ?case by (simp add: lit_def)
qed

lemma alts_mem:
  "r \<in> set rs \<Longrightarrow> m \<in> set (rx_match r x) \<Longrightarrow> m \<in> set (rx_match (alts rs) x)"
proof (induction rs rule: alts.induct)
  case 1
  then show ?case by simp
next
  case (2 r')
  then show ?case by simp
next
  case (3 r' v va)
  then show ?case by auto
qed

lemma closings_mem:
  "p \<in> set closing_phrases \<Longrightarrow> map lower_chr q = map lower_chr p \<Longrightarrow>
   y \<in> set (rx_match closings (q @ y))"
  unfolding closings_def by (rule alts_mem [of "lit p"]) (simp_all add: lit_mem)

lemma any_all: "[] \<in> set (star_match AnyChar x)"
  by (induction x) simp_all

subsection \<open>What a match leaves\<close>

lemma star_match_suffix: "m \<in> set (star_match a x) \<Longrightarrow> suffix m x"
  by (induction x) (auto simp: suffix_Cons split: if_splits)

lemma rx_match_suffix: "m \<in> set (rx_match r x) \<Longrightarrow> suffix m x"
proof (induction r arbitrary: x m)
  case Eps
  then show ?case by simp
next
  case (Atom a)
  then show ?case by (cases x) (auto simp: suffix_Cons split: if_splits)
next
  case (Star a)
  then show ?case by (simp add: star_match_suffix)
next
  case (Opt r)
  then show ?case by auto
next
  case (Seq r1 r2)
  from Seq.prems obtain m1 where 1: "m1 \<in> set (rx_match r1 x)" and 2: "m \<in> set (rx_match r2 m1)"
    by auto
  from Seq.IH(1) [OF 1] Seq.IH(2) [OF 2] show ?case by (rule suffix_order.trans [rotated])
next
  case (Alt r1 r2)
  then show ?case by auto
next
  case Eos
  then show ?case by (auto split: if_splits)
qed

lemma seq_tail:
  "(\<And>y. set (rx_match b y) \<subseteq> A) \<Longrightarrow> set (rx_match (Seq a b) x) \<subseteq> A"
  by auto

lemma eos_tail: "set (rx_match (Seq Eos Eps) y) \<subseteq> {[], [nl]}"
  by auto

lemma seqs_Nil: "seqs [] = Eps"
  by (simp add: seqs_def)

lemma closing_patterns_end:
  "pattern \<in> set closing_patterns \<Longrightarrow> set (rx_match pattern x) \<subseteq> {[], [nl]}"
proof -
  have 1: "set (rx_match closing_pattern1 x) \<subseteq> {[], [nl]}"
    unfolding closing_pattern1_def seqs_Cons seqs_Nil by (intro seq_tail eos_tail)
  have 2: "set (rx_match closing_pattern2 x) \<subseteq> {[], [nl]}"
    unfolding closing_pattern2_def seqs_Cons seqs_Nil by (intro seq_tail eos_tail)
  have 3: "set (rx_match closing_pattern3 x) \<subseteq> {[], [nl]}"
    unfolding closing_pattern3_def seqs_Cons seqs_Nil by (intro seq_tail eos_tail)
  assume "pattern \<in> set closing_patterns"
  then have "pattern = closing_pattern1 \<or> pattern = closing_pattern2 \<or> pattern = closing_pattern3"
    by (simp add: closing_patterns_def)
  with 1 2 3 show ?thesis by blast
qed

subsection \<open>Where a closing pattern cuts\<close>

lemma closing_match_rest:
  assumes p: "pattern \<in> set closing_patterns" and m: "m \<in> set (rx_match pattern x)"
  shows "length m < length x \<and> suffix m x \<and> (m = [] \<or> m = [nl])"
proof -
  from p obtain r where r: "pattern = Seq (Atom (Lit nl)) r"
    using closing_patterns_nl by blast
  from m r obtain c cs where x: "x = c # cs" and mr: "m \<in> set (rx_match r cs)"
    by (cases x) (auto split: if_splits)
  from mr have s: "suffix m cs" by (rule rx_match_suffix)
  then have "length m \<le> length cs" by (rule suffix_length_le)
  moreover from s have "suffix m x" by (simp add: x suffix_Cons)
  moreover from closing_patterns_end [OF p] m have "m = [] \<or> m = [nl]" by auto
  ultimately show ?thesis by (simp add: x)
qed

lemma closing_match_empty:
  assumes p: "pattern \<in> set closing_patterns" and m: "m \<in> set (rx_match pattern x)"
    and l: "last x \<noteq> nl"
  shows "m = []"
proof (rule ccontr)
  assume "m \<noteq> []"
  with closing_match_rest [OF p m] have "m = [nl]" and "suffix m x" by auto
  then obtain zs where "x = zs @ [nl]" by (auto simp: suffix_def)
  with l show False by simp
qed

lemma find_closing:
  assumes p: "pattern \<in> set closing_patterns" and l: "last x \<noteq> nl"
  shows "find (\<lambda>rest. length rest < length x) (rx_match pattern x) =
           (if rx_match pattern x = [] then None else Some [])"
proof (cases "rx_match pattern x")
  case Nil
  then show ?thesis by simp
next
  case (Cons m ms)
  then have "m \<in> set (rx_match pattern x)" by simp
  from closing_match_empty [OF p this l] closing_match_rest [OF p this]
  have "m = []" and "length m < length x" by simp_all
  with Cons show ?thesis by simp
qed

lemma re_sub_step:
  assumes p: "pattern \<in> set closing_patterns" and l: "last (c # cs) \<noteq> nl"
  shows "re_sub pattern (c # cs) =
           (if rx_match pattern (c # cs) = [] then c # re_sub pattern cs else [])"
  using find_closing [OF p l] by simp

lemma re_sub_cut:
  assumes p: "pattern \<in> set closing_patterns"
    and m: "m \<noteq> []" "last m \<noteq> nl" "rx_match pattern m \<noteq> []"
  shows "\<exists>k\<le>length pre. re_sub pattern (pre @ m) = take k pre"
proof (induction pre)
  case Nil
  from m obtain c cs where "m = c # cs" by (cases m) auto
  with re_sub_step [OF p, of c cs] m show ?case by simp
next
  case (Cons c pre)
  from m have l: "last (c # pre @ m) \<noteq> nl" by simp
  show ?case
  proof (cases "rx_match pattern (c # pre @ m) = []")
    case True
    from Cons.IH obtain k where k: "k \<le> length pre" "re_sub pattern (pre @ m) = take k pre"
      by blast
    with re_sub_step [OF p l] True have "re_sub pattern ((c # pre) @ m) = take (Suc k) (c # pre)"
      by simp
    with k(1) show ?thesis by (intro exI [of _ "Suc k"]) simp
  next
    case False
    with re_sub_step [OF p l] have "re_sub pattern ((c # pre) @ m) = take 0 (c # pre)" by simp
    then show ?thesis by (intro exI [of _ 0]) simp
  qed
qed

lemma re_sub_cut_exact:
  assumes p: "pattern \<in> set closing_patterns"
    and m: "m \<noteq> []" "last m \<noteq> nl" "rx_match pattern m \<noteq> []"
    and none: "\<forall>a post. pre = a @ nl # post \<longrightarrow> rx_match pattern (nl # post @ m) = []"
  shows "re_sub pattern (pre @ m) = pre"
  using none
proof (induction pre)
  case Nil
  from m obtain c cs where "m = c # cs" by (cases m) auto
  with re_sub_step [OF p, of c cs] m show ?case by simp
next
  case (Cons c pre)
  from p obtain r where r: "pattern = Seq (Atom (Lit nl)) r"
    using closing_patterns_nl by blast
  from m have l: "last (c # pre @ m) \<noteq> nl" by simp
  have miss: "rx_match pattern (c # pre @ m) = []"
  proof (cases "c = nl")
    case True
    with Cons.prems [rule_format, of "[]" pre] show ?thesis by simp
  next
    case False
    then show ?thesis unfolding r by (rule nl_pattern_miss)
  qed
  have "\<forall>a post. pre = a @ nl # post \<longrightarrow> rx_match pattern (nl # post @ m) = []"
  proof (intro allI impI)
    fix a post assume "pre = a @ nl # post"
    then have "c # pre = (c # a) @ nl # post" by simp
    with Cons.prems show "rx_match pattern (nl # post @ m) = []" by blast
  qed
  from Cons.IH [OF this] re_sub_step [OF p l] miss show ?case by simp
qed

lemma re_sub_same:
  assumes p: "pattern \<in> set closing_patterns"
    and none: "\<forall>a post. x = a @ nl # post \<longrightarrow> rx_match pattern (nl # post) = []"
  shows "re_sub pattern x = x"
  using none
proof (induction x)
  case Nil
  then show ?case by simp
next
  case (Cons c x)
  from p obtain r where r: "pattern = Seq (Atom (Lit nl)) r"
    using closing_patterns_nl by blast
  have miss: "rx_match pattern (c # x) = []"
  proof (cases "c = nl")
    case True
    with Cons.prems [rule_format, of "[]" x] show ?thesis by simp
  next
    case False
    then show ?thesis unfolding r by (rule nl_pattern_miss)
  qed
  have "\<forall>a post. x = a @ nl # post \<longrightarrow> rx_match pattern (nl # post) = []"
  proof (intro allI impI)
    fix a post assume "x = a @ nl # post"
    then have "c # x = (c # a) @ nl # post" by simp
    with Cons.prems show "rx_match pattern (nl # post) = []" by blast
  qed
  from Cons.IH [OF this] miss show ?case by simp
qed

lemma re_sub_take:
  assumes p: "pattern \<in> set closing_patterns" and l: "x = [] \<or> last x \<noteq> nl"
  shows "\<exists>k. re_sub pattern x = take k x"
  using l
proof (induction x)
  case Nil
  then show ?case by simp
next
  case (Cons c x)
  then have l: "last (c # x) \<noteq> nl" by simp
  show ?case
  proof (cases "rx_match pattern (c # x) = []")
    case True
    have "x = [] \<or> last x \<noteq> nl" using l by (cases x) auto
    from Cons.IH [OF this] obtain k where "re_sub pattern x = take k x" by blast
    with re_sub_step [OF p l] True have "re_sub pattern (c # x) = take (Suc k) (c # x)" by simp
    then show ?thesis ..
  next
    case False
    with re_sub_step [OF p l] have "re_sub pattern (c # x) = take 0 (c # x)" by simp
    then show ?thesis ..
  qed
qed

subsection \<open>The first pattern matches a listed closing\<close>

lemma pattern1_matches:
  assumes g: "list_all is_space g"
    and p: "p \<in> set closing_phrases" and q: "map lower_chr q = map lower_chr p"
    and sep: "sep \<in> set ['''', '','', ''.'']"
    and tail: "name_line tail"
  shows "[] \<in> set (rx_match closing_pattern1 (nl # g @ q @ sep @ tail))"
proof -
  let ?name = "Opt (Seq (lit ''Ayaan'') (Star AnyChar))"
  have e: "[] \<in> set (rx_match (Seq Eos Eps) [])" by simp
  have t8: "[] \<in> set (rx_match (Seq (Star Space) (Seq (Opt (Atom (Lit nl)))
              (Seq (Star Space) (Seq ?name (Seq Eos Eps))))) tail)"
  proof (cases "tail = []")
    case True
    have "[] \<in> set (rx_match (Seq ?name (Seq Eos Eps)) [])"
      by (rule seq_mem [OF opt_skip e])
    then have "[] \<in> set (rx_match (Seq (Star Space) (Seq ?name (Seq Eos Eps))) [])"
      by (rule seq_mem [rotated]) simp
    then have "[] \<in> set (rx_match (Seq (Opt (Atom (Lit nl)))
                 (Seq (Star Space) (Seq ?name (Seq Eos Eps)))) [])"
      by (rule seq_mem [OF opt_skip])
    then have "[] \<in> set (rx_match (Seq (Star Space) (Seq (Opt (Atom (Lit nl)))
                 (Seq (Star Space) (Seq ?name (Seq Eos Eps))))) [])"
      by (rule seq_mem [rotated]) simp
    with True show ?thesis by simp
  next
    case False
    with tail obtain ws name rest where t: "tail = ws @ name @ rest"
      and ws: "list_all is_space ws" and n: "map lower_chr name = map lower_chr ''Ayaan''"
      unfolding name_line_def by blast
    have "rest \<in> set (rx_match (lit ''Ayaan'') (name @ rest))" using n by (rule lit_mem)
    moreover have "[] \<in> set (rx_match (Star AnyChar) rest)" by (simp add: any_all)
    ultimately have "[] \<in> set (rx_match (Seq (lit ''Ayaan'') (Star AnyChar)) (name @ rest))"
      by (rule seq_mem)
    then have "[] \<in> set (rx_match ?name (name @ rest))" by (rule opt_take)
    then have "[] \<in> set (rx_match (Seq ?name (Seq Eos Eps)) (name @ rest))"
      by (rule seq_mem [OF _ e])
    then have "[] \<in> set (rx_match (Seq (Star Space) (Seq ?name (Seq Eos Eps))) (name @ rest))"
      by (rule seq_mem [rotated]) (simp add: star_match_self)
    then have "[] \<in> set (rx_match (Seq (Opt (Atom (Lit nl)))
                 (Seq (Star Space) (Seq ?name (Seq Eos Eps)))) (name @ rest))"
      by (rule seq_mem [OF opt_skip])
    moreover have "name @ rest \<in> set (rx_match (Star Space) (ws @ name @ rest))"
      using ws by (simp add: star_match_all list_all_iff)
    ultimately show ?thesis unfolding t by (rule seq_mem [rotated])
  qed
  have t4: "tail \<in> set (rx_match (Opt (Atom (OneOf '',.''))) (sep @ tail))"
  proof -
    from sep have "sep = [] \<or> sep = '','' \<or> sep = ''.''" by simp
    then show ?thesis
    proof (elim disjE)
      assume "sep = []"
      then show ?thesis by (simp del: rx_match.simps add: opt_skip)
    next
      assume "sep = '',''"
      moreover have "tail \<in> set (rx_match (Atom (OneOf '',.'')) (CHR '','' # tail))"
        by (simp add: lower_chr_def)
      ultimately show ?thesis by (simp del: rx_match.simps add: opt_take)
    next
      assume "sep = ''.''"
      moreover have "tail \<in> set (rx_match (Atom (OneOf '',.'')) (CHR ''.'' # tail))"
        by (simp add: lower_chr_def)
      ultimately show ?thesis by (simp del: rx_match.simps add: opt_take)
    qed
  qed
  have t3: "sep @ tail \<in> set (rx_match closings (q @ sep @ tail))"
    using p q by (rule closings_mem)
  have t2: "q @ sep @ tail \<in> set (rx_match (Star Space) (g @ q @ sep @ tail))"
    using g by (simp add: star_match_all list_all_iff)
  have t1: "g @ q @ sep @ tail \<in> set (rx_match (Atom (Lit nl)) (nl # g @ q @ sep @ tail))"
    by simp
  show ?thesis
    unfolding closing_pattern1_def seqs_Cons seqs_Nil
    by (intro seq_mem [OF t1] seq_mem [OF t2] seq_mem [OF t3] seq_mem [OF t4]) (rule t8)
qed

subsection \<open>Stripping an initial part\<close>

lemma is_space_nl: "is_space nl"
  by (simp add: is_space_def)

lemma strip_take_prefix:
  assumes "u = [] \<or> \<not> is_space (hd u)"
  shows "prefix (strip (take k u)) u"
proof -
  have "take k u = [] \<or> \<not> is_space (hd (take k u))"
    using assms by (cases u; cases k) auto
  then have "lstrip (take k u) = take k u" by (rule lstrip_id)
  then have "strip (take k u) = rstrip (take k u)" by (simp add: strip_def)
  moreover obtain zs where "take k u = rstrip (take k u) @ zs"
    using rstrip_prefix [of "take k u"] by blast
  then have "prefix (rstrip (take k u)) (take k u)" by (metis prefixI)
  moreover have "prefix (take k u) u" by (rule take_is_prefix)
  ultimately show ?thesis by (metis prefix_order.trans)
qed

lemma strip_app_space:
  assumes t: "t \<noteq> []" "\<not> is_space (hd t)" "\<not> is_space (last t)" and g: "list_all is_space g"
  shows "strip (t @ g) = t"
proof -
  from t have "lstrip (t @ g) = t @ g" by (intro lstrip_id) simp
  moreover have "rstrip (t @ g) = t"
  proof -
    have "dropWhile is_space (rev g @ rev t) = dropWhile is_space (rev t)"
      using g by (intro dropWhile_append2) (simp add: list_all_iff)
    also have "\<dots> = rev t" using t by (cases "rev t") (auto simp: hd_rev)
    finally show ?thesis by (simp add: rstrip_def)
  qed
  ultimately show ?thesis by (simp add: strip_def)
qed

lemma strip_clean: "strip x = [] \<or> (\<not> is_space (hd (strip x)) \<and> \<not> is_space (last (strip x)))"
  using hd_strip last_strip by blast

lemma strip_no_nl: "strip x = [] \<or> last (strip x) \<noteq> nl"
  using last_strip [of x] is_space_nl by auto

subsection \<open>A listed closing at the end of the model's text\<close>

lemma after_breaks_iff: "post \<in> set (after_breaks x) \<longleftrightarrow> (\<exists>a. x = a @ nl # post)"
proof (induction x)
  case Nil
  then show ?case by simp
next
  case (Cons c x)
  show ?case
  proof
    assume "post \<in> set (after_breaks (c # x))"
    then have "(c = nl \<and> post = x) \<or> post \<in> set (after_breaks x)" by (auto split: if_splits)
    then show "\<exists>a. c # x = a @ nl # post"
    proof
      assume "c = nl \<and> post = x"
      then have "c # x = [] @ nl # post" by simp
      then show ?thesis ..
    next
      assume "post \<in> set (after_breaks x)"
      with Cons.IH obtain a where "x = a @ nl # post" by blast
      then have "c # x = (c # a) @ nl # post" by simp
      then show ?thesis ..
    qed
  next
    assume "\<exists>a. c # x = a @ nl # post"
    then obtain a where a: "c # x = a @ nl # post" ..
    show "post \<in> set (after_breaks (c # x))"
    proof (cases a)
      case Nil
      with a show ?thesis by simp
    next
      case (Cons d a')
      with a have "x = a' @ nl # post" by simp
      with Cons.IH have "post \<in> set (after_breaks x)" by blast
      then show ?thesis by simp
    qed
  qed
qed

lemma no_earlier_cut_iff:
  "no_earlier_cut t rest \<longleftrightarrow>
     (\<forall>a post. t = a @ nl # post \<longrightarrow>
        rx_match closing_pattern1 (nl # post @ rest) = [] \<and>
        rx_match closing_pattern2 (nl # post) = [] \<and>
        rx_match closing_pattern3 (nl # post) = [])"
  by (auto simp: no_earlier_cut_def list_all_iff after_breaks_iff)

lemma no_cut_iff:
  "no_cut x \<longleftrightarrow>
     (\<forall>pattern\<in>set closing_patterns. \<forall>a post. x = a @ nl # post \<longrightarrow>
        rx_match pattern (nl # post) = [])"
  by (auto simp: no_cut_def list_all_iff after_breaks_iff)

lemma clean_up_closing:
  assumes s: "strip out = t @ gap @ c"
    and tl: "\<not> is_space (last t)"
    and cl: "closing_line gap c"
  shows "prefix (clean_up out) t"
    and "no_earlier_cut t (gap @ c) \<Longrightarrow> clean_up out = t"
proof -
  from cl obtain p q sep tail where c: "c = q @ sep @ tail"
    and gs: "list_all is_space gap" and gn: "nl \<in> set gap"
    and p: "p \<in> set closing_phrases" and q: "map lower_chr q = map lower_chr p"
    and sep: "sep \<in> set ['''', '','', ''.'']" and tail: "name_line tail"
    unfolding closing_line_def by blast
  from gn obtain g0 g1 where gap: "gap = g0 @ nl # g1" and g0: "nl \<notin> set g0"
    by (auto dest: split_list_first)
  from gs gap have g0s: "list_all is_space g0" and g1s: "list_all is_space g1" by simp_all
  let ?m = "nl # g1 @ c"
  have s0: "strip out = (t @ g0) @ ?m" by (simp add: s gap)
  then have ne: "strip out \<noteq> []" by simp
  with strip_clean [of out] have hd0: "\<not> is_space (hd (strip out))"
    and last0: "\<not> is_space (last (strip out))" by simp_all
  have tne: "t \<noteq> []"
  proof
    assume "t = []"
    with s gap have "hd (strip out) = hd (g0 @ [nl])" by (cases g0) simp_all
    moreover have "is_space (hd (g0 @ [nl]))" using g0s is_space_nl by (cases g0) simp_all
    ultimately show False using hd0 by simp
  qed
  with s have hdt: "\<not> is_space (hd t)" using hd0 by simp
  have lastm: "last ?m \<noteq> nl"
  proof -
    have "last (strip out) = last ?m" unfolding s0 by (rule last_appendR) simp
    with last0 is_space_nl show ?thesis by auto
  qed
  have "[] \<in> set (rx_match closing_pattern1 (nl # g1 @ q @ sep @ tail))"
    using g1s p q sep tail by (rule pattern1_matches)
  then have match: "rx_match closing_pattern1 ?m \<noteq> []" unfolding c by auto
  note mem = closing_patterns_mem
  have uclean: "\<And>x. strip x = [] \<or> last (strip x) \<noteq> nl" by (rule strip_no_nl)
  have uhd: "\<And>x. strip x = [] \<or> \<not> is_space (hd (strip x))" using strip_clean by blast

  show "prefix (clean_up out) t"
  proof -
    from re_sub_cut [OF mem(1) _ lastm match, of "t @ g0"] obtain k where
      k: "re_sub closing_pattern1 (strip out) = take k (t @ g0)"
      unfolding s0 by auto
    let ?u1 = "strip (re_sub closing_pattern1 (strip out))"
    have p1: "prefix ?u1 t"
    proof (cases "k \<le> length t")
      case True
      then have e: "take k (t @ g0) = take k t" by simp
      have "prefix (strip (take k t)) t" using hdt by (intro strip_take_prefix) simp
      then show ?thesis unfolding k e .
    next
      case False
      then have e: "take k (t @ g0) = t @ take (k - length t) g0" by simp
      have "list_all is_space (take (k - length t) g0)"
        using g0s by (auto simp: list_all_iff dest: in_set_takeD)
      then have "strip (t @ take (k - length t) g0) = t"
        by (rule strip_app_space [OF tne hdt tl])
      then have "?u1 = t" unfolding k e .
      then show ?thesis by simp
    qed
    let ?u2 = "strip (re_sub closing_pattern2 ?u1)"
    from re_sub_take [OF mem(2) uclean] obtain k2 where
      "re_sub closing_pattern2 ?u1 = take k2 ?u1" by blast
    with strip_take_prefix [OF uhd, where k = k2] have p2: "prefix ?u2 ?u1" by simp
    let ?u3 = "strip (re_sub closing_pattern3 ?u2)"
    from re_sub_take [OF mem(3) uclean] obtain k3 where
      "re_sub closing_pattern3 ?u2 = take k3 ?u2" by blast
    with strip_take_prefix [OF uhd, where k = k3] have p3: "prefix ?u3 ?u2" by simp
    have "clean_up out = ?u3" by (rule clean_up_three)
    with p1 p2 p3 show ?thesis by (metis prefix_order.trans)
  qed

  assume none: "no_earlier_cut t (gap @ c)"
  show "clean_up out = t"
  proof -
    have n1: "\<forall>a post. t @ g0 = a @ nl # post \<longrightarrow>
                rx_match closing_pattern1 (nl # post @ ?m) = []"
    proof (intro allI impI)
      fix a post assume e: "t @ g0 = a @ nl # post"
      then obtain us where "(t = a @ us \<and> us @ g0 = nl # post) \<or>
                             (t @ us = a \<and> g0 = us @ nl # post)"
        by (auto simp: append_eq_append_conv2)
      with g0 obtain us where us: "t = a @ us" "us @ g0 = nl # post" by auto
      with g0 obtain post' where "us = nl # post'" "post = post' @ g0" by (cases us) auto
      with us none have "rx_match closing_pattern1 (nl # post' @ gap @ c) = []"
        unfolding no_earlier_cut_iff by blast
      with \<open>post = post' @ g0\<close> show "rx_match closing_pattern1 (nl # post @ ?m) = []"
        by (simp add: gap)
    qed
    have "re_sub closing_pattern1 ((t @ g0) @ ?m) = t @ g0"
      using mem(1) _ lastm match n1 by (rule re_sub_cut_exact) simp
    then have 1: "strip (re_sub closing_pattern1 (strip out)) = t"
      using strip_app_space [OF tne hdt tl g0s] by (simp add: s0)
    have st: "strip t = t" using tne hdt tl by (intro strip_id) simp
    have "re_sub closing_pattern2 t = t"
      using mem(2) none unfolding no_earlier_cut_iff by (intro re_sub_same) blast+
    then have 2: "strip (re_sub closing_pattern2 t) = t" by (simp add: st)
    have "re_sub closing_pattern3 t = t"
      using mem(3) none unfolding no_earlier_cut_iff by (intro re_sub_same) blast+
    then have 3: "strip (re_sub closing_pattern3 t) = t" by (simp add: st)
    show ?thesis by (simp add: clean_up_three 1 2 3)
  qed
qed


lemma clean_up_no_cut:
  assumes "no_cut (strip out)"
  shows "clean_up out = strip out"
proof -
  have "re_sub pattern (strip out) = strip out" if "pattern \<in> set closing_patterns" for pattern
    using that assms unfolding no_cut_iff by (intro re_sub_same) blast+
  then show ?thesis by (simp add: clean_up_three closing_patterns_mem strip_strip)
qed


section \<open>The drafts returned\<close>

lemma config_of_cases:
  "config_of ''normal'' = normal_config"
  "config_of ''friendly'' = friendly_config"
  "config_of ''professional'' = professional_config"
  "tone \<notin> {''normal'', ''friendly'', ''professional''} \<Longrightarrow> config_of tone = normal_config"
  by (simp_all add: config_of_def tone_configs_def)

lemma generate_draft_suffix:
  "\<exists>text. fst (generate_draft e from_addr subject body tone tr) =
            text @ ''\<newline>\<newline>'' @ signature (config_of tone)"
  by (cases "generate_text e tr
               (compose_prompt e tone (instruction (config_of tone)) from_addr subject body)
               (temperature (config_of tone))")
     (simp_all add: generate_draft_def Let_def)

lemma strip_Nil: "strip [] = []"
  by (simp add: strip_def lstrip_def rstrip_def)

lemma generate_draft_fallback:
  assumes "generate_text e tr
             (compose_prompt e tone (instruction (config_of tone)) from_addr subject body)
             (temperature (config_of tone)) = r"
    and "(\<exists>err. r = Inl err) \<or> (\<exists>out. r = Inr out \<and> strip out = [] \<and> nl \<notin> set subject)"
  shows "fst (generate_draft e from_addr subject body tone tr) =
           fallback subject @ ''\<newline>\<newline>'' @ signature (config_of tone)"
  using assms by (auto simp: generate_draft_def Let_def clean_up_fallback)

lemma generate_draft_cleaned:
  assumes "generate_text e tr
             (compose_prompt e tone (instruction (config_of tone)) from_addr subject body)
             (temperature (config_of tone)) = Inr out"
    and "strip out \<noteq> []"
  shows "fst (generate_draft e from_addr subject body tone tr) =
           clean_up out @ ''\<newline>\<newline>'' @ signature (config_of tone)"
proof -
  from assms(2) have "out \<noteq> []" using strip_Nil by auto
  with assms show ?thesis by (simp add: generate_draft_def Let_def)
qed

text \<open>
  C5 as stated fails: a closing is cut only where one of the three fixed patterns matches. The
  phrase \<open>Best wishes\<close> is not in the list; the third pattern cuts the name line and the
  phrase stays in front of the signature.
\<close>

theorem generate_draft_signature_counterexample:
  "fst (generate_draft wishes_env ''Ann <ann@example.com>'' ''Lunch'' ''Are you free?''
          ''normal'' []) =
     ''Friday works for me.\<newline>Best wishes,\<newline>\<newline>Regards,\<newline>Ayaan''"
  by code_simp

text \<open>
  C5, as amended. For every tone and every model output the draft ends with a blank line
  followed by the signature block of the tone's configuration; \<open>normal\<close>, \<open>friendly\<close>
  and \<open>professional\<close> have their own configuration and every other tone has that of
  \<open>normal\<close>. In front of the blank line stands the model's text after the clean-up:

    \<^item> when the model's text, outer white space stripped, is not empty and from none of its
      line breaks a closing pattern matches, it is that stripped text, whole;

    \<^item> when the stripped text is a non-empty text \<open>t\<close> that does not end in white space, then
      white space with a line break in it, then a phrase of the fixed list in any letter case
      with an optional comma or full stop, and then nothing more, or optional white space and
      a rest that starts with \<open>Ayaan\<close> in any letter case, then the phrase and all that
      follows it are cut: what stands in front of the blank line is an initial part of
      \<open>t\<close>, and it is \<open>t\<close> itself when no pattern matches earlier, that is when from no
      line break of \<open>t\<close> the first pattern matches to the end of the stripped text or the
      second or third pattern matches to the end of \<open>t\<close>.
\<close>

theorem generate_draft_signature:
  "(\<exists>text. fst (generate_draft e from_addr subject body tone tr) =
             text @ ''\<newline>\<newline>'' @ signature (config_of tone)) \<and>
   config_of ''normal'' = normal_config \<and>
   config_of ''friendly'' = friendly_config \<and>
   config_of ''professional'' = professional_config \<and>
   (tone \<notin> {''normal'', ''friendly'', ''professional''} \<longrightarrow> config_of tone = normal_config) \<and>
   (generate_text e tr
      (compose_prompt e tone (instruction (config_of tone)) from_addr subject body)
      (temperature (config_of tone)) = Inr out \<and>
    strip out \<noteq> [] \<and> no_cut (strip out) \<longrightarrow>
      fst (generate_draft e from_addr subject body tone tr) =
        strip out @ ''\<newline>\<newline>'' @ signature (config_of tone)) \<and>
   (generate_text e tr
      (compose_prompt e tone (instruction (config_of tone)) from_addr subject body)
      (temperature (config_of tone)) = Inr out \<and>
    strip out = t @ gap @ c \<and> t \<noteq> [] \<and> \<not> is_space (last t) \<and> closing_line gap c \<longrightarrow>
      (\<exists>text. prefix text t \<and>
         fst (generate_draft e from_addr subject body tone tr) =
           text @ ''\<newline>\<newline>'' @ signature (config_of tone)) \<and>
      (no_earlier_cut t (gap @ c) \<longrightarrow>
         fst (generate_draft e from_addr subject body tone tr) =
           t @ ''\<newline>\<newline>'' @ signature (config_of tone)))"
proof (intro conjI impI)
  assume a: "generate_text e tr
      (compose_prompt e tone (instruction (config_of tone)) from_addr subject body)
      (temperature (config_of tone)) = Inr out \<and>
    strip out \<noteq> [] \<and> no_cut (strip out)"
  then have "clean_up out = strip out" by (intro clean_up_no_cut) simp
  with a show "fst (generate_draft e from_addr subject body tone tr) =
        strip out @ ''\<newline>\<newline>'' @ signature (config_of tone)"
    by (simp add: generate_draft_cleaned)
next
  assume a: "generate_text e tr
      (compose_prompt e tone (instruction (config_of tone)) from_addr subject body)
      (temperature (config_of tone)) = Inr out \<and>
    strip out = t @ gap @ c \<and> t \<noteq> [] \<and> \<not> is_space (last t) \<and> closing_line gap c"
  then have n: "strip out \<noteq> []" by simp
  from a have d: "fst (generate_draft e from_addr subject body tone tr) =
      clean_up out @ ''\<newline>\<newline>'' @ signature (config_of tone)"
    using n by (intro generate_draft_cleaned) simp_all
  from a have "prefix (clean_up out) t" by (intro clean_up_closing(1) [of out t gap c]) simp_all
  with d show "\<exists>text. prefix text t \<and>
         fst (generate_draft e from_addr subject body tone tr) =
           text @ ''\<newline>\<newline>'' @ signature (config_of tone)"
    by blast
  assume "no_earlier_cut t (gap @ c)"
  with a have "clean_up out = t" by (intro clean_up_closing(2) [of out t gap c]) simp_all
  with d show "fst (generate_draft e from_addr subject body tone tr) =
           t @ ''\<newline>\<newline>'' @ signature (config_of tone)"
    by simp
qed (rule generate_draft_suffix, simp_all add: config_of_cases)

theorem generate_draft_signature_witness:
  "closing_line '' \<newline>\<newline>  '' ''best regards,\<newline> ayaan asish'' \<and>
   no_earlier_cut ''Hi Ann,\<newline>Friday works for me.''
     ('' \<newline>\<newline>  '' @ ''best regards,\<newline> ayaan asish'') \<and>
   fst (generate_draft signing_env ''Ann <ann@example.com>'' ''Lunch'' ''Are you free?''
          ''professional'' []) =
     ''Hi Ann,\<newline>Friday works for me.\<newline>\<newline>Regards,\<newline>Ayaan Asish\<newline>Grade 11\<newline>West Carleton Secondary School, Ontario'' \<and>
   no_cut (strip ''Hi Ann,\<newline>Friday works for me.'') \<and>
   fst (generate_draft plain_env ''Ann <ann@example.com>'' ''Lunch'' ''Are you free?''
          ''casual'' []) =
     ''Hi Ann,\<newline>Friday works for me.\<newline>\<newline>Regards,\<newline>Ayaan'' \<and>
   ''casual'' \<notin> {''normal'', ''friendly'', ''professional''} \<and>
   config_of ''casual'' = normal_config"
proof -
  let ?out = "'' Hi Ann,\<newline>Friday works for me. \<newline>\<newline>  best regards,\<newline> ayaan asish\<newline>''"
  let ?t = "''Hi Ann,\<newline>Friday works for me.''"
  let ?gap = "'' \<newline>\<newline>  ''"
  let ?c = "''best regards,\<newline> ayaan asish''"
  let ?plain = "''Hi Ann,\<newline>Friday works for me.''"
  have s: "strip ?out = ?t @ ?gap @ ?c" by code_simp
  have g: "generate_text signing_env []
      (compose_prompt signing_env ''professional'' (instruction (config_of ''professional''))
         ''Ann <ann@example.com>'' ''Lunch'' ''Are you free?'')
      (temperature (config_of ''professional'')) = Inr ?out"
    by (simp add: signing_env_def)
  have tn: "?t \<noteq> []" by simp
  have tl: "\<not> is_space (last ?t)" by code_simp
  have nm: "name_line ''\<newline> ayaan asish''"
  proof -
    have "''\<newline> ayaan asish'' = ''\<newline> '' @ ''ayaan'' @ '' asish'' \<and> list_all is_space ''\<newline> '' \<and>
          map lower_chr ''ayaan'' = map lower_chr ''Ayaan''"
      by code_simp
    then show ?thesis unfolding name_line_def by blast
  qed
  have cl: "closing_line ?gap ?c"
  proof -
    have 1: "list_all is_space ?gap \<and> nl \<in> set ?gap" by code_simp
    have 2: "?c = ''best regards'' @ '','' @ ''\<newline> ayaan asish'' \<and>
          ''Best regards'' \<in> set closing_phrases \<and>
          map lower_chr ''best regards'' = map lower_chr ''Best regards'' \<and>
          '','' \<in> set ['''', '','', ''.'']"
      by code_simp
    from 2 nm have "\<exists>p q sep tail. ?c = q @ sep @ tail \<and> p \<in> set closing_phrases \<and>
         map lower_chr q = map lower_chr p \<and> sep \<in> set ['''', '','', ''.''] \<and> name_line tail"
      by blast
    with 1 show ?thesis unfolding closing_line_def by blast
  qed
  have ne: "no_earlier_cut ?t (?gap @ ?c)" by code_simp
  have u: "''casual'' \<notin> {''normal'', ''friendly'', ''professional''}" by simp
  have g2: "generate_text plain_env []
      (compose_prompt plain_env ''casual'' (instruction (config_of ''casual''))
         ''Ann <ann@example.com>'' ''Lunch'' ''Are you free?'')
      (temperature (config_of ''casual'')) = Inr ?plain"
    by (simp add: plain_env_def)
  have sn: "strip ?plain \<noteq> []" by code_simp
  have nc: "no_cut (strip ?plain)" by code_simp
  note inst = generate_draft_signature [where tr = "[]"
      and from_addr = "''Ann <ann@example.com>''" and subject = "''Lunch''"
      and body = "''Are you free?''"]
  note inst1 = inst [where e = signing_env and tone = "''professional''" and out = ?out
      and t = ?t and gap = ?gap and c = ?c]
  note inst2 = inst [where e = plain_env and tone = "''casual''" and out = ?plain]
  have d: "fst (generate_draft signing_env ''Ann <ann@example.com>'' ''Lunch'' ''Are you free?''
          ''professional'' []) =
        ?t @ ''\<newline>\<newline>'' @ signature (config_of ''professional'')"
    by (rule inst1 [THEN conjunct2, THEN conjunct2, THEN conjunct2, THEN conjunct2,
          THEN conjunct2, THEN conjunct2, THEN mp, THEN conjunct2, THEN mp])
       (intro conjI g s tn tl cl, rule ne)
  have e: "?t @ ''\<newline>\<newline>'' @ signature (config_of ''professional'') =
     ''Hi Ann,\<newline>Friday works for me.\<newline>\<newline>Regards,\<newline>Ayaan Asish\<newline>Grade 11\<newline>West Carleton Secondary School, Ontario''"
    by code_simp
  from d e have d': "fst (generate_draft signing_env ''Ann <ann@example.com>'' ''Lunch''
          ''Are you free?'' ''professional'' []) =
     ''Hi Ann,\<newline>Friday works for me.\<newline>\<newline>Regards,\<newline>Ayaan Asish\<newline>Grade 11\<newline>West Carleton Secondary School, Ontario''"
    by (rule trans)
  have p: "fst (generate_draft plain_env ''Ann <ann@example.com>'' ''Lunch'' ''Are you free?''
          ''casual'' []) =
        strip ?plain @ ''\<newline>\<newline>'' @ signature (config_of ''casual'')"
    by (rule inst2 [THEN conjunct2, THEN conjunct2, THEN conjunct2, THEN conjunct2,
          THEN conjunct2, THEN conjunct1, THEN mp])
       (intro conjI g2 sn nc)
  have pe: "strip ?plain @ ''\<newline>\<newline>'' @ signature (config_of ''casual'') =
     ''Hi Ann,\<newline>Friday works for me.\<newline>\<newline>Regards,\<newline>Ayaan''"
    by code_simp
  from p pe have p': "fst (generate_draft plain_env ''Ann <ann@example.com>'' ''Lunch''
          ''Are you free?'' ''casual'' []) = ''Hi Ann,\<newline>Friday works for me.\<newline>\<newline>Regards,\<newline>Ayaan''"
    by (rule trans)
  have cc: "config_of ''casual'' = normal_config"
    by (rule inst2 [THEN conjunct2, THEN conjunct2, THEN conjunct2, THEN conjunct2,
          THEN conjunct1, THEN mp]) (rule u)
  show ?thesis
    by (rule conjI [OF cl conjI [OF ne conjI [OF d' conjI [OF nc conjI [OF p' conjI [OF u cc]]]]]])
qed

text \<open>
  C6 at a subject with a line break, when the model returns only white space: the fallback
  sentence goes through the clean-up, whose third pattern cuts it after the line break. When
  the model call raises, and for a subject without a line break, the fallback sentence comes
  back whole (\<open>generate_draft_fallback\<close>).
\<close>

theorem generate_draft_fallback_cut:
  "fst (generate_draft silent_env ''Ann <ann@example.com>'' ''Trip\<newline>Ayaan'' ''See you.''
          ''normal'' []) =
     ''Thank you for your email regarding 'Trip\<newline>\<newline>Regards,\<newline>Ayaan'' \<and>
   fallback ''Trip\<newline>Ayaan'' @ ''\<newline>\<newline>'' @ signature (config_of ''normal'') =
     ''Thank you for your email regarding 'Trip\<newline>Ayaan'. I will review and respond shortly.\<newline>\<newline>Regards,\<newline>Ayaan''"
  by code_simp



section \<open>The dispatch loop\<close>

text \<open>
  A tool call binds when its name is not in the dispatch table or its keyword arguments fit
  the parameters of the tool; a call that does not bind raises \<open>TypeError\<close> out of
  \<open>chat\<close>. In a turn whose tool calls all bind, each call leaves one tool message, in
  order, and the model is called exactly twice (\<open>chat_one_round\<close>); with no tool calls it
  is called once (\<open>chat_no_tools\<close>).
\<close>

lemma tool_functions_dom:
  "tool_functions e name = None \<longleftrightarrow>
     name \<notin> {''list_emails'', ''read_email'', ''send_email_reply''}"
  by (simp add: tool_functions_def)

lemma dispatch_unknown:
  "tool_functions e (tc_name tc) = None \<Longrightarrow>
   dispatch e tc s tr = (Inr (Error (''Unknown function: '' @ tc_name tc)), s, tr)"
  by (simp add: dispatch_def)

lemma parse_arguments_degrade:
  "json_loads e t = None \<Longrightarrow> parse_arguments e (RawText t) = Object empty_kwargs"
  by (simp add: parse_arguments_def)

lemma dispatch_binds:
  "binds e tc \<Longrightarrow> \<exists>res s' tr'. dispatch e tc s tr = (Inr res, s', tr')"
  by (auto simp: binds_def dispatch_def tool_functions_def tool_list_emails_def
        tool_read_email_def tool_send_reply_def split_beta
        split: parsed.splits option.splits)

lemma dispatch_not_binds:
  "\<not> binds e tc \<Longrightarrow> dispatch e tc s tr = (Inl type_error, s, tr)"
  by (auto simp: binds_def dispatch_def tool_functions_def tool_list_emails_def
        tool_read_email_def tool_send_reply_def split_beta
        split: parsed.splits option.splits if_splits)

lemma list_loop_chats:
  "filter is_chat_call (snd (snd (list_loop e i msgs emails s tr))) = filter is_chat_call tr"
  by (induction msgs arbitrary: i emails s tr) (auto simp: Let_def split: sum.splits)

lemma list_emails_chats:
  "filter is_chat_call (snd (snd (list_emails e m q s tr))) = filter is_chat_call tr"
  by (auto simp: list_emails_def Let_def list_loop_chats split: sum.splits)

lemma generate_draft_chats:
  "filter is_chat_call (snd (generate_draft e f sj b t tr)) = filter is_chat_call tr"
  by (auto simp: generate_draft_def Let_def split: sum.splits)

lemma read_email_chats:
  "filter is_chat_call (snd (snd (read_email e n g t s tr))) = filter is_chat_call tr"
  by (auto simp: read_email_def Let_def split_beta generate_draft_chats
        split: option.splits sum.splits)

lemma send_reply_chats:
  "filter is_chat_call (snd (snd (send_reply e n rb s tr))) = filter is_chat_call tr"
  by (auto simp: send_reply_def Let_def split: option.splits sum.splits)

lemma dispatch_chats:
  "filter is_chat_call (snd (snd (dispatch e tc s tr))) = filter is_chat_call tr"
  by (auto simp: dispatch_def tool_functions_def tool_list_emails_def tool_read_email_def
        tool_send_reply_def split_beta list_emails_chats read_email_chats send_reply_chats
        split: parsed.splits option.splits)

lemma run_tool_calls_ok:
  "list_all (binds e) tcs \<Longrightarrow>
   \<exists>s' tr' msgs.
     run_tool_calls e tcs a tr =
       (Inr (), a\<lparr>mailbox := s', conversation_history := conversation_history a @ msgs\<rparr>, tr') \<and>
     length msgs = length tcs \<and> (\<forall>m\<in>set msgs. role m = Tool) \<and>
     filter is_chat_call tr' = filter is_chat_call tr"
proof (induction tcs arbitrary: a tr)
  case Nil
  show ?case
    by (rule exI [of _ "mailbox a"], rule exI [of _ tr], rule exI [of _ "[]"]) simp
next
  case (Cons tc tcs)
  from Cons.prems have b: "binds e tc" and bs: "list_all (binds e) tcs" by simp_all
  from dispatch_binds [OF b] obtain res s1 tr1 where
    d: "dispatch e tc (mailbox a) tr = (Inr res, s1, tr1)" by blast
  have c1: "filter is_chat_call tr1 = filter is_chat_call tr"
    using dispatch_chats [of e tc "mailbox a" tr] d by simp
  let ?a1 = "a\<lparr>mailbox := s1,
                 conversation_history := conversation_history a @ [tool_message e res]\<rparr>"
  from Cons.IH [OF bs, of ?a1 tr1] obtain s' tr' msgs where
    r: "run_tool_calls e tcs ?a1 tr1 =
          (Inr (), ?a1\<lparr>mailbox := s', conversation_history := conversation_history ?a1 @ msgs\<rparr>, tr')"
    and l: "length msgs = length tcs" and t: "\<forall>m\<in>set msgs. role m = Tool"
    and c: "filter is_chat_call tr' = filter is_chat_call tr1"
    by blast
  show ?case
    apply (rule exI [of _ s'], rule exI [of _ tr'], rule exI [of _ "tool_message e res # msgs"])
    using d r l t c c1 by (simp add: tool_message_def)
qed

lemma chat_no_tools:
  assumes "client_chat e tr (system_message # conversation_history a @ [user_msg u]) = Inr am"
    and "tool_calls am = []"
  shows "chat e u a tr =
     (Inr (content am),
      a\<lparr>conversation_history :=
          conversation_history a @ [user_msg u, assistant_msg (content am)]\<rparr>,
      tr @ [ChatCall (system_message # conversation_history a @ [user_msg u])])"
  using assms by (simp add: chat_def Let_def user_msg_def assistant_msg_def)

lemma chat_one_round:
  assumes first: "client_chat e tr (system_message # conversation_history a @ [user_msg u]) = Inr am"
    and some: "tool_calls am \<noteq> []"
    and ok: "list_all (binds e) (tool_calls am)"
  shows "\<exists>r a' tr' msgs.
     chat e u a tr = (r, a', tr') \<and>
     length msgs = length (tool_calls am) \<and> (\<forall>m\<in>set msgs. role m = Tool) \<and>
     length (filter is_chat_call tr') = length (filter is_chat_call tr) + 2 \<and>
     conversation_history a' =
       conversation_history a @ [user_msg u, am] @ msgs @
       (case r of Inl err \<Rightarrow> [] | Inr c \<Rightarrow> [assistant_msg c])"
proof -
  let ?h1 = "conversation_history a @ [user_msg u]"
  let ?a2 = "a\<lparr>conversation_history := ?h1 @ [am]\<rparr>"
  let ?tr1 = "tr @ [ChatCall (system_message # ?h1)]"
  from run_tool_calls_ok [OF ok, of ?a2 ?tr1] obtain s' tr2 msgs where
    r: "run_tool_calls e (tool_calls am) ?a2 ?tr1 =
          (Inr (), ?a2\<lparr>mailbox := s', conversation_history := conversation_history ?a2 @ msgs\<rparr>, tr2)"
    and l: "length msgs = length (tool_calls am)" and t: "\<forall>m\<in>set msgs. role m = Tool"
    and c: "filter is_chat_call tr2 = filter is_chat_call ?tr1"
    by blast
  let ?a3 = "?a2\<lparr>mailbox := s', conversation_history := conversation_history ?a2 @ msgs\<rparr>"
  let ?m2 = "system_message # conversation_history ?a3"
  have n: "length (filter is_chat_call (tr2 @ [ChatCall ?m2])) = length (filter is_chat_call tr) + 2"
    by (simp add: c)
  show ?thesis
  proof (cases "client_chat e tr2 ?m2")
    case (Inl err)
    with first some r have "chat e u a tr = (Inl err, ?a3, tr2 @ [ChatCall ?m2])"
      by (simp add: chat_def Let_def user_msg_def)
    with l t n show ?thesis by simp
  next
    case (Inr final)
    with first some r have "chat e u a tr =
        (Inr (content final),
         ?a3\<lparr>conversation_history := conversation_history ?a3 @ [assistant_msg (content final)]\<rparr>,
         tr2 @ [ChatCall ?m2])"
      by (simp add: chat_def Let_def user_msg_def assistant_msg_def)
    with l t n show ?thesis by simp
  qed
qed

text \<open>
  C8 at a turn whose first tool call does not bind (\<open>read_email\<close> called with the key
  \<open>number\<close>): the turn ends in the \<open>TypeError\<close>, no tool message is appended, the second
  listed call is never executed (no request reaches the Mail Capability) and the model has been
  called once, not twice.
\<close>

theorem chat_tool_abort:
  "fst (chat (tool_env [read_wrong_key, list_call]) ''Read two, then list'' new_agent []) =
     Inl type_error \<and>
   map role (conversation_history
     (fst (snd (chat (tool_env [read_wrong_key, list_call]) ''Read two, then list'' new_agent []))))
     = [User, Assistant] \<and>
   length (filter is_chat_call
     (snd (snd (chat (tool_env [read_wrong_key, list_call]) ''Read two, then list'' new_agent []))))
     = 1 \<and>
   filter is_mail_call
     (snd (snd (chat (tool_env [read_wrong_key, list_call]) ''Read two, then list'' new_agent [])))
     = []"
  by code_simp

text \<open>
  C9 at a tool call whose arguments are a string that does not parse: the arguments become
  the empty dict, \<open>read_email\<close> is called without its required \<open>email_number\<close>, and the
  turn ends in the \<open>TypeError\<close> instead of returning text.
\<close>

theorem chat_unparsable_arguments_abort:
  "json_loads (tool_env [read_raw]) ''{email_number: 2'' = None \<and>
   parse_arguments (tool_env [read_raw]) (tc_arguments read_raw) = Object empty_kwargs \<and>
   fst (chat (tool_env [read_raw]) ''Read the second one'' new_agent []) = Inl type_error \<and>
   length (filter is_chat_call
     (snd (snd (chat (tool_env [read_raw]) ''Read the second one'' new_agent [])))) = 1"
  by code_simp


end
